theory Spec2Isabelle
  imports Complex_Main "HOL-Library.Sublist"
begin

section \<open>Tokens and the lexer (parse.go)\<close>

text \<open>
  The lexer of \<^verbatim>\<open>parse.go\<close> wraps Go's \<^verbatim>\<open>text/scanner\<close>. Its lookahead
  \<^verbatim>\<open>lex.token\<close> is a rune: one of the scanner's negative constants (\<^verbatim>\<open>scanner.EOF\<close>,
  \<^verbatim>\<open>scanner.Ident\<close>, \<^verbatim>\<open>scanner.Int\<close>, \<^verbatim>\<open>scanner.Float\<close>; the other token
  classes are switched off by the \<^verbatim>\<open>Mode\<close> that \<^verbatim>\<open>Parse\<close> sets) or the character
  itself. Characters are the 8-bit \<^typ>\<open>char\<close>.
\<close>

datatype rune = scanner_EOF | scanner_Ident | scanner_Int | scanner_Float | Rune char

text \<open>
  The state of a lexer is the sequence of tokens still to come, each with its text: the head
  is the lookahead (\<^verbatim>\<open>lex.token\<close> and \<^verbatim>\<open>lex.text()\<close>), the tail is what further
  calls of \<^verbatim>\<open>scan.Scan()\<close> return. At the end of the input \<^verbatim>\<open>Scan\<close> returns
  \<^verbatim>\<open>EOF\<close> for ever, so \<^verbatim>\<open>next\<close> on the exhausted lexer leaves it exhausted.
\<close>

type_synonym lexer = "(rune \<times> string) list"

definition lex_token :: "lexer \<Rightarrow> rune" where
  "lex_token lx = (case lx of [] \<Rightarrow> scanner_EOF | (t, s) # r \<Rightarrow> t)"

definition lex_text :: "lexer \<Rightarrow> string" where
  "lex_text lx = (case lx of [] \<Rightarrow> [] | (t, s) # r \<Rightarrow> s)"

definition lex_next :: "lexer \<Rightarrow> lexer" where
  "lex_next lx = (case lx of [] \<Rightarrow> [] | (t, s) # r \<Rightarrow> r)"

text \<open>
  \<^verbatim>\<open>Scan\<close> reports \<^verbatim>\<open>EOF\<close> only when the input is exhausted: no element of a token
  sequence that the scanner produces is \<^verbatim>\<open>EOF\<close>.
\<close>

definition scanned :: "lexer \<Rightarrow> bool" where
  "scanned ts = list_all (\<lambda>(t, s). t \<noteq> scanner_EOF) ts"

text \<open>\<^verbatim>\<open>lexer.String\<close>: the description of the current token that the error messages quote.\<close>

datatype descr = EndOfFile | Identifier string | Number string | Quoted char

definition lex_String :: "lexer \<Rightarrow> descr" where
  "lex_String lx =
     (case lex_token lx of
        scanner_EOF \<Rightarrow> EndOfFile
      | scanner_Ident \<Rightarrow> Identifier (lex_text lx)
      | scanner_Int \<Rightarrow> Number (lex_text lx)
      | scanner_Float \<Rightarrow> Number (lex_text lx)
      | Rune c \<Rightarrow> Quoted c)"

definition priority :: "rune \<Rightarrow> int" where
  "priority op =
     (if op = Rune (CHR ''*'') \<or> op = Rune (CHR ''/'') then 2
      else if op = Rune (CHR ''+'') \<or> op = Rune (CHR ''-'') then 1
      else 0)"

section \<open>Expressions (the Expr interface and its three implementations)\<close>

text \<open>
  \<^verbatim>\<open>num\<close>, \<^verbatim>\<open>unary{op, x}\<close> and \<^verbatim>\<open>binary{op, x, y}\<close>. The type \<^typ>\<open>'v\<close> stands
  for \<^verbatim>\<open>float64\<close>.
\<close>

datatype 'v Expr = num 'v | unary rune "'v Expr" | binary rune "'v Expr" "'v Expr"

text \<open>
  Go errors are strings built by \<^verbatim>\<open>fmt.Errorf\<close>; one constructor per format string, with
  the values it interpolates. The detail that \<^verbatim>\<open>strconv\<close> adds to a rejected number is
  left out.
\<close>

datatype 'v error =
    DivisionByZero
  | UnsupportedUnary rune
  | UnsupportedBinary rune
  | OperandUnary "'v Expr" "'v error"
  | OperandX "'v Expr" "'v error"
  | OperandY "'v Expr" "'v error"
  | Unexpected descr
  | WantRParen descr
  | BadFloat descr
  | InUnary descr "'v error"
  | InSymbol descr "'v error"
  | CouldNotParse descr "'v error"

text \<open>
  What a parsing function hands back: an expression with a nil error, a nil expression with an
  error, or no return at all because the Go run time panicked.
\<close>

datatype 'v outcome = Ok "'v Expr" | Err "'v error" | Panic

text \<open>
  The operations on \<^verbatim>\<open>float64\<close> that the code uses belong to the language and its
  standard library, not to the repository: they are a parameter. \<open>f_eq_zero\<close> is the
  comparison \<^verbatim>\<open>y == 0\<close>, \<open>f_zero\<close> the constant \<^verbatim>\<open>0\<close> returned beside an error,
  \<open>ParseFloat\<close> is \<^verbatim>\<open>strconv.ParseFloat(s, 64)\<close> (\<open>None\<close> when it returns an error) and
  \<open>Sprintf_2f\<close> is \<^verbatim>\<open>fmt.Sprintf("%.2f", f)\<close>.
\<close>

record 'v float64_ops =
  f_add :: "'v \<Rightarrow> 'v \<Rightarrow> 'v"
  f_sub :: "'v \<Rightarrow> 'v \<Rightarrow> 'v"
  f_mul :: "'v \<Rightarrow> 'v \<Rightarrow> 'v"
  f_quo :: "'v \<Rightarrow> 'v \<Rightarrow> 'v"
  f_neg :: "'v \<Rightarrow> 'v"
  f_zero :: "'v"
  f_eq_zero :: "'v \<Rightarrow> bool"
  ParseFloat :: "string \<Rightarrow> 'v option"
  Sprintf_2f :: "'v \<Rightarrow> string"

text \<open>\<^verbatim>\<open>Eval\<close> returns a pair: the number and the error (\<open>None\<close> for nil).\<close>

fun Eval :: "'v float64_ops \<Rightarrow> 'v Expr \<Rightarrow> 'v \<times> 'v error option" where
  "Eval F (num f) = (f, None)"
| "Eval F (unary op x) =
     (case Eval F x of
        (xv, Some err) \<Rightarrow> (f_zero F, Some (OperandUnary x err))
      | (xv, None) \<Rightarrow>
          (if op = Rune (CHR ''+'') then (xv, None)
           else if op = Rune (CHR ''-'') then (f_neg F xv, None)
           else (f_zero F, Some (UnsupportedUnary op))))"
| "Eval F (binary op x y) =
     (case Eval F x of
        (xv, Some err) \<Rightarrow> (f_zero F, Some (OperandX x err))
      | (xv, None) \<Rightarrow>
          (case Eval F y of
             (yv, Some err) \<Rightarrow> (f_zero F, Some (OperandY y err))
           | (yv, None) \<Rightarrow>
               (if op = Rune (CHR ''+'') then (f_add F xv yv, None)
                else if op = Rune (CHR ''-'') then (f_sub F xv yv, None)
                else if op = Rune (CHR ''*'') then (f_mul F xv yv, None)
                else if op = Rune (CHR ''/'') then
                  (if f_eq_zero F yv then (f_zero F, Some DivisionByZero)
                   else (f_quo F xv yv, None))
                else (f_zero F, Some (UnsupportedBinary op)))))"

text \<open>
  \<^verbatim>\<open>Len\<close> returns a Go \<^verbatim>\<open>int\<close>; a tree of \<open>2\<^sup>6\<^sup>3\<close> nodes does not fit in memory, so
  the count is not wrapped.
\<close>

fun Len :: "'v Expr \<Rightarrow> int" where
  "Len (num f) = 1"
| "Len (unary op x) = Len x + 1"
| "Len (binary op x y) = Len x + Len y + 1"

text \<open>
  \<^verbatim>\<open>string(op)\<close>: the character, or the UTF-8 bytes of U+FFFD for a rune that is no
  code point (the negative scanner constants).
\<close>

definition string_of_rune :: "rune \<Rightarrow> string" where
  "string_of_rune r =
     (case r of
        Rune c \<Rightarrow> [c]
      | _ \<Rightarrow> [char_of (239 :: nat), char_of (191 :: nat), char_of (189 :: nat)])"

fun String :: "'v float64_ops \<Rightarrow> 'v Expr \<Rightarrow> string" where
  "String F (num f) = Sprintf_2f F f"
| "String F (unary op x) = string_of_rune op @ String F x"
| "String F (binary op x y) = String F x @ '' '' @ string_of_rune op @ '' '' @ String F y"

section \<open>The tree-building parser (parse.go)\<close>

text \<open>
  Every function takes the lexer and returns it as it left it, beside its result (the Go code
  mutates \<^verbatim>\<open>*lexer\<close> in place, and the error messages quote the token at which the
  failing call stopped). The two nested \<^verbatim>\<open>for\<close> loops of \<^verbatim>\<open>parseBinary\<close> are the
  functions \<open>parseBinary_for\<close> (the loop over \<^verbatim>\<open>prio\<close>, counting down) and
  \<open>parseBinary_while\<close> (the loop over the operators of one priority); \<^verbatim>\<open>prio\<close> never
  leaves the range of a machine integer, since \<^verbatim>\<open>prio0\<close> is \<open>1\<close>, \<open>2\<close> or \<open>3\<close> in every
  call the program makes.
\<close>

function parseExpr :: "'v float64_ops \<Rightarrow> lexer \<Rightarrow> 'v outcome \<times> lexer"
  and parseBinary :: "'v float64_ops \<Rightarrow> lexer \<Rightarrow> int \<Rightarrow> 'v outcome \<times> lexer"
  and parseBinary_for :: "'v float64_ops \<Rightarrow> lexer \<Rightarrow> int \<Rightarrow> int \<Rightarrow> 'v Expr \<Rightarrow> 'v outcome \<times> lexer"
  and parseBinary_while :: "'v float64_ops \<Rightarrow> lexer \<Rightarrow> int \<Rightarrow> 'v Expr \<Rightarrow> 'v outcome \<times> lexer"
  and parseUnary :: "'v float64_ops \<Rightarrow> lexer \<Rightarrow> 'v outcome \<times> lexer"
  and parsePrimary :: "'v float64_ops \<Rightarrow> lexer \<Rightarrow> 'v outcome \<times> lexer"
where
  "parseExpr F lx = parseBinary F lx 1"
| "parseBinary F lx prio0 =
     (case parseUnary F lx of
        (Ok left, lx1) \<Rightarrow> parseBinary_for F lx1 prio0 (priority (lex_token lx1)) left
      | (Err e, lx1) \<Rightarrow> (Err (InUnary (lex_String lx1) e), lx1)
      | (Panic, lx1) \<Rightarrow> (Panic, lx1))"
| "parseBinary_for F lx prio0 prio left =
     (if prio \<ge> prio0 then
        (case parseBinary_while F lx prio left of
           (Ok left', lx1) \<Rightarrow> parseBinary_for F lx1 prio0 (prio - 1) left'
         | (Err e, lx1) \<Rightarrow> (Err e, lx1)
         | (Panic, lx1) \<Rightarrow> (Panic, lx1))
      else (Ok left, lx))"
| "parseBinary_while F lx prio left =
     (if priority (lex_token lx) = prio then
        (case parseBinary F (lex_next lx) (prio + 1) of
           (Ok right, lx1) \<Rightarrow> parseBinary_while F lx1 prio (binary (lex_token lx) left right)
         | (Err e, lx1) \<Rightarrow> (Err (InUnary (lex_String lx1) e), lx1)
         | (Panic, lx1) \<Rightarrow> (Panic, lx1))
      else (Ok left, lx))"
| "parseUnary F lx =
     (if lex_token lx = Rune (CHR ''+'') \<or> lex_token lx = Rune (CHR ''-'') then
        (case parseUnary F (lex_next lx) of
           (Ok e, lx1) \<Rightarrow> (Ok (unary (lex_token lx) e), lx1)
         | (Err e, lx1) \<Rightarrow> (Err (InUnary (lex_String lx1) e), lx1)
         | (Panic, lx1) \<Rightarrow> (Panic, lx1))
      else parsePrimary F lx)"
| "parsePrimary F lx =
     (if lex_token lx = scanner_Int \<or> lex_token lx = scanner_Float then
        (case ParseFloat F (lex_text lx) of
           None \<Rightarrow> (Err (BadFloat (lex_String lx)), lx)
         | Some f \<Rightarrow> (Ok (num f), lex_next lx))
      else if lex_token lx = Rune (CHR ''('') then
        (case parseExpr F (lex_next lx) of
           (Ok e, lx1) \<Rightarrow>
             (if lex_token lx1 \<noteq> Rune (CHR '')'') then (Err (WantRParen (lex_String lx1)), lx1)
              else (Ok e, lex_next lx1))
         | (Err e, lx1) \<Rightarrow> (Err (InSymbol (lex_String lx1) e), lx1)
         | (Panic, lx1) \<Rightarrow> (Panic, lx1))
      else (Err (Unexpected (lex_String lx)), lx))"
  by pat_completeness auto

section \<open>The fused parser (evalparse.go)\<close>

text \<open>
  The same descent, with \<^verbatim>\<open>x, _ := e.Eval()\<close> at every place where an operand is
  complete: the error of \<^verbatim>\<open>Eval\<close> is dropped and the number kept, \<open>fst (Eval F e)\<close>.
  In \<^verbatim>\<open>evalparsePrimary\<close> the call \<^verbatim>\<open>e.Eval()\<close> comes before the test of \<^verbatim>\<open>err\<close>:
  when \<^verbatim>\<open>evalparseExpr\<close> has failed, \<^verbatim>\<open>e\<close> is the nil interface and the call panics.
\<close>

function evalparseExpr :: "'v float64_ops \<Rightarrow> lexer \<Rightarrow> 'v outcome \<times> lexer"
  and evalparseBinary :: "'v float64_ops \<Rightarrow> lexer \<Rightarrow> int \<Rightarrow> 'v outcome \<times> lexer"
  and evalparseBinary_for :: "'v float64_ops \<Rightarrow> lexer \<Rightarrow> int \<Rightarrow> int \<Rightarrow> 'v Expr \<Rightarrow> 'v outcome \<times> lexer"
  and evalparseBinary_while :: "'v float64_ops \<Rightarrow> lexer \<Rightarrow> int \<Rightarrow> 'v Expr \<Rightarrow> 'v outcome \<times> lexer"
  and evalparseUnary :: "'v float64_ops \<Rightarrow> lexer \<Rightarrow> 'v outcome \<times> lexer"
  and evalparsePrimary :: "'v float64_ops \<Rightarrow> lexer \<Rightarrow> 'v outcome \<times> lexer"
where
  "evalparseExpr F lx = evalparseBinary F lx 1"
| "evalparseBinary F lx prio0 =
     (case evalparseUnary F lx of
        (Ok left, lx1) \<Rightarrow>
          (case evalparseBinary_for F lx1 prio0 (priority (lex_token lx1)) left of
             (Ok left', lx2) \<Rightarrow> (Ok (num (fst (Eval F left'))), lx2)
           | (Err e, lx2) \<Rightarrow> (Err e, lx2)
           | (Panic, lx2) \<Rightarrow> (Panic, lx2))
      | (Err e, lx1) \<Rightarrow> (Err (InUnary (lex_String lx1) e), lx1)
      | (Panic, lx1) \<Rightarrow> (Panic, lx1))"
| "evalparseBinary_for F lx prio0 prio left =
     (if prio \<ge> prio0 then
        (case evalparseBinary_while F lx prio left of
           (Ok left', lx1) \<Rightarrow> evalparseBinary_for F lx1 prio0 (prio - 1) left'
         | (Err e, lx1) \<Rightarrow> (Err e, lx1)
         | (Panic, lx1) \<Rightarrow> (Panic, lx1))
      else (Ok left, lx))"
| "evalparseBinary_while F lx prio left =
     (if priority (lex_token lx) = prio then
        (case evalparseBinary F (lex_next lx) (prio + 1) of
           (Ok right, lx1) \<Rightarrow>
             evalparseBinary_while F lx1 prio
               (binary (lex_token lx) (num (fst (Eval F left))) right)
         | (Err e, lx1) \<Rightarrow> (Err (InUnary (lex_String lx1) e), lx1)
         | (Panic, lx1) \<Rightarrow> (Panic, lx1))
      else (Ok left, lx))"
| "evalparseUnary F lx =
     (if lex_token lx = Rune (CHR ''+'') \<or> lex_token lx = Rune (CHR ''-'') then
        (case evalparseUnary F (lex_next lx) of
           (Ok e, lx1) \<Rightarrow> (Ok (unary (lex_token lx) (num (fst (Eval F e)))), lx1)
         | (Err e, lx1) \<Rightarrow> (Err (InUnary (lex_String lx1) e), lx1)
         | (Panic, lx1) \<Rightarrow> (Panic, lx1))
      else evalparsePrimary F lx)"
| "evalparsePrimary F lx =
     (if lex_token lx = scanner_Int \<or> lex_token lx = scanner_Float then
        (case ParseFloat F (lex_text lx) of
           None \<Rightarrow> (Err (BadFloat (lex_String lx)), lx)
         | Some f \<Rightarrow> (Ok (num f), lex_next lx))
      else if lex_token lx = Rune (CHR ''('') then
        (case evalparseExpr F (lex_next lx) of
           (Ok e, lx1) \<Rightarrow>
             (if lex_token lx1 \<noteq> Rune (CHR '')'') then (Err (WantRParen (lex_String lx1)), lx1)
              else (Ok (num (fst (Eval F e))), lex_next lx1))
         | (Err e, lx1) \<Rightarrow> (Panic, lx1)
         | (Panic, lx1) \<Rightarrow> (Panic, lx1))
      else (Err (Unexpected (lex_String lx)), lx))"
  by pat_completeness auto

section \<open>The entry points\<close>

text \<open>
  \<^verbatim>\<open>Parse\<close> and \<^verbatim>\<open>EvalParse\<close> create a lexer of their own on the reader, take the first
  token as lookahead, parse one expression and require the end of the input. The argument is
  the token sequence that the scanner produces from the reader.
\<close>

definition Parse :: "'v float64_ops \<Rightarrow> lexer \<Rightarrow> 'v outcome" where
  "Parse F r =
     (case parseExpr F r of
        (Ok e, lx) \<Rightarrow>
          (if lex_token lx \<noteq> scanner_EOF then Err (Unexpected (lex_String lx)) else Ok e)
      | (Err err, lx) \<Rightarrow> Err (CouldNotParse (lex_String lx) err)
      | (Panic, lx) \<Rightarrow> Panic)"

definition EvalParse :: "'v float64_ops \<Rightarrow> lexer \<Rightarrow> 'v outcome" where
  "EvalParse F r =
     (case evalparseExpr F r of
        (Ok e, lx) \<Rightarrow>
          (if lex_token lx \<noteq> scanner_EOF then Err (Unexpected (lex_String lx)) else Ok e)
      | (Err err, lx) \<Rightarrow> Err (CouldNotParse (lex_String lx) err)
      | (Panic, lx) \<Rightarrow> Panic)"

section \<open>The scanner on plain decimal text\<close>

text \<open>
  \<^verbatim>\<open>text/scanner\<close> is Go's library. On input made of decimal digits, dots, white space
  and other ASCII characters that are neither letters nor the underscore, the mode that
  \<^verbatim>\<open>Parse\<close> sets (\<^verbatim>\<open>ScanIdents | ScanInts | ScanFloats\<close>) makes it work as follows, which
  is what \<open>Scan_tokens\<close> computes: blank, tab, line feed and carriage return are
  skipped; a run of digits is an \<^verbatim>\<open>Int\<close>; a run of digits followed by a dot and a possibly
  empty run of digits is a \<^verbatim>\<open>Float\<close>, and so is a dot followed by at least one digit; every
  other character is a token by itself. Input with any other character (letters, which would
  start identifiers, exponents or radix prefixes, and bytes outside ASCII) is outside this
  description: \<open>None\<close>.
\<close>

definition isDecimal :: "char \<Rightarrow> bool" where
  "isDecimal c = (48 \<le> (of_char c :: nat) \<and> (of_char c :: nat) \<le> 57)"

definition isWhitespace :: "char \<Rightarrow> bool" where
  "isWhitespace c = ((of_char c :: nat) = 32 \<or> (of_char c :: nat) = 9
     \<or> (of_char c :: nat) = 10 \<or> (of_char c :: nat) = 13)"

definition plain :: "char \<Rightarrow> bool" where
  "plain c = (let n = (of_char c :: nat) in
     0 < n \<and> n < 128 \<and> \<not> (65 \<le> n \<and> n \<le> 90) \<and> \<not> (97 \<le> n \<and> n \<le> 122) \<and> n \<noteq> 95)"

datatype scan_state = Idle | InInt string | InFloat string | AfterDot

fun scan_flush :: "scan_state \<Rightarrow> lexer" where
  "scan_flush Idle = []"
| "scan_flush (InInt t) = [(scanner_Int, t)]"
| "scan_flush (InFloat t) = [(scanner_Float, t)]"
| "scan_flush AfterDot = [(Rune (CHR ''.''), ''.'')]"

fun scan_from :: "scan_state \<Rightarrow> string \<Rightarrow> lexer option" where
  "scan_from st [] = Some (scan_flush st)"
| "scan_from st (c # cs) =
     (if \<not> plain c then None
      else if isDecimal c then
        scan_from
          (case st of
             Idle \<Rightarrow> InInt [c]
           | InInt t \<Rightarrow> InInt (t @ [c])
           | InFloat t \<Rightarrow> InFloat (t @ [c])
           | AfterDot \<Rightarrow> InFloat [CHR ''.'', c]) cs
      else if c = CHR ''.'' then
        (case st of
           InInt t \<Rightarrow> scan_from (InFloat (t @ [c])) cs
         | _ \<Rightarrow> map_option (append (scan_flush st)) (scan_from AfterDot cs))
      else
        map_option
          (append (scan_flush st @ (if isWhitespace c then [] else [(Rune c, [c])])))
          (scan_from Idle cs))"

definition Scan_tokens :: "string \<Rightarrow> lexer option" where
  "Scan_tokens s = scan_from Idle s"

definition Parse_string :: "'v float64_ops \<Rightarrow> string \<Rightarrow> 'v outcome option" where
  "Parse_string F s = map_option (Parse F) (Scan_tokens s)"

definition EvalParse_string :: "'v float64_ops \<Rightarrow> string \<Rightarrow> 'v outcome option" where
  "EvalParse_string F s = map_option (EvalParse F) (Scan_tokens s)"

section \<open>Arithmetic without rounding\<close>

text \<open>
  On operands and results that \<^verbatim>\<open>float64\<close> represents exactly (the integers below
  \<open>2\<^sup>5\<^sup>3\<close> among them) its operations are those of the rational numbers. \<open>exact\<close> is
  this arithmetic; the examples with small integers are evaluated in it. \<open>ParseFloat\<close>
  reads the decimal literals of \<open>Scan_tokens\<close>; \<open>Sprintf_2f\<close> rounds to two decimals,
  ties to even.
\<close>

definition digit_value :: "char \<Rightarrow> nat" where
  "digit_value c = of_char c - 48"

definition decimal_value :: "string \<Rightarrow> nat" where
  "decimal_value ds = foldl (\<lambda>n c. 10 * n + digit_value c) 0 ds"

definition ParseFloat_decimal :: "string \<Rightarrow> rat option" where
  "ParseFloat_decimal s =
     (let ip = takeWhile isDecimal s; r = dropWhile isDecimal s in
      if r = [] then (if ip = [] then None else Some (of_nat (decimal_value ip)))
      else if hd r = CHR ''.'' \<and> list_all isDecimal (tl r) \<and> (ip \<noteq> [] \<or> tl r \<noteq> []) then
        Some (of_nat (decimal_value ip) + of_nat (decimal_value (tl r)) / 10 ^ length (tl r))
      else None)"

fun decimal_digits :: "nat \<Rightarrow> string" where
  "decimal_digits n =
     (if n < 10 then [char_of (48 + n)]
      else decimal_digits (n div 10) @ [char_of (48 + n mod 10)])"

definition round_half_even :: "rat \<Rightarrow> nat" where
  "round_half_even x =
     (let m = nat \<lfloor>x\<rfloor>; d = x - of_int \<lfloor>x\<rfloor> in
      if d < 1 / 2 then m else if 1 / 2 < d then m + 1 else if even m then m else m + 1)"

definition Sprintf_2f_rat :: "rat \<Rightarrow> string" where
  "Sprintf_2f_rat x =
     (let n = round_half_even (\<bar>x\<bar> * 100) in
      (if x < 0 then ''-'' else '''') @ decimal_digits (n div 100) @ ''.''
        @ [char_of (48 + n mod 100 div 10), char_of (48 + n mod 10)])"

definition exact :: "rat float64_ops" where
  "exact = \<lparr> f_add = (+), f_sub = (-), f_mul = (*), f_quo = (/), f_neg = uminus,
     f_zero = 0, f_eq_zero = (\<lambda>y. y = 0),
     ParseFloat = ParseFloat_decimal, Sprintf_2f = Sprintf_2f_rat \<rparr>"

section \<open>Counting the symbols of the input\<close>

text \<open>
  The numeric literals of a token sequence are its \<^verbatim>\<open>Int\<close> and \<^verbatim>\<open>Float\<close> tokens, its
  operators are its tokens \<^verbatim>\<open>+\<close>, \<^verbatim>\<open>-\<close>, \<^verbatim>\<open>*\<close> and \<^verbatim>\<open>/\<close> (each one is applied once,
  as a sign or as a binary operator, in a parse that succeeds).
\<close>

definition is_literal :: "rune \<times> string \<Rightarrow> bool" where
  "is_literal ts = (fst ts = scanner_Int \<or> fst ts = scanner_Float)"

definition is_operator :: "rune \<times> string \<Rightarrow> bool" where
  "is_operator ts = (fst ts = Rune CHR ''+'' \<or> fst ts = Rune CHR ''-''
     \<or> fst ts = Rune CHR ''*'' \<or> fst ts = Rune CHR ''/'')"

definition literals :: "lexer \<Rightarrow> nat" where
  "literals lx = length (filter is_literal lx)"

definition operators :: "lexer \<Rightarrow> nat" where
  "operators lx = length (filter is_operator lx)"

definition symbols :: "lexer \<Rightarrow> int" where
  "symbols lx = int (literals lx) + int (operators lx)"

section \<open>Auxiliary notions for the proofs\<close>

text \<open>
  What the fused parser computes for the tree that the tree-building parser returns: the
  evaluation in which every operand is first reduced to a number, its error dropped.
\<close>

fun eager_value :: "'v float64_ops \<Rightarrow> 'v Expr \<Rightarrow> 'v" where
  "eager_value F (num f) = f"
| "eager_value F (unary op x) = fst (Eval F (unary op (num (eager_value F x))))"
| "eager_value F (binary op x y) =
     fst (Eval F (binary op (num (eager_value F x)) (num (eager_value F y))))"

text \<open>The token of a closing parenthesis.\<close>

definition closing :: "rune \<times> string" where
  "closing = (Rune CHR '')'', '')'')"

text \<open>
  The tokens of the text that \<^verbatim>\<open>String\<close> prints for a tree: a \<^verbatim>\<open>Float\<close> for every
  literal, with its two-decimal rendering as text, and the operators in between.
\<close>

fun render :: "'v float64_ops \<Rightarrow> 'v Expr \<Rightarrow> lexer" where
  "render F (num f) = [(scanner_Float, Sprintf_2f F f)]"
| "render F (unary op x) = (op, string_of_rune op) # render F x"
| "render F (binary op x y) = render F x @ (op, string_of_rune op) # render F y"

text \<open>
  The parser treats \<^verbatim>\<open>Int\<close> and \<^verbatim>\<open>Float\<close> alike; \<open>kind\<close> identifies them.
\<close>

definition kind :: "rune \<Rightarrow> rune" where
  "kind t = (if t = scanner_Int then scanner_Float else t)"

text \<open>Input without an opening parenthesis.\<close>

definition paren_free :: "lexer \<Rightarrow> bool" where
  "paren_free lx = list_all (\<lambda>(t, s). t \<noteq> Rune CHR ''('') lx"

text \<open>
  Text of the form digits, dot, digits, with at least one digit before the dot: what
  \<^verbatim>\<open>%.2f\<close> prints for a finite number that is not negative.
\<close>

definition decimal_text :: "string \<Rightarrow> bool" where
  "decimal_text s =
     (let ip = takeWhile isDecimal s; r = dropWhile isDecimal s in
      ip \<noteq> [] \<and> r \<noteq> [] \<and> hd r = CHR ''.'' \<and> list_all isDecimal (tl r))"

text \<open>
  \<open>rereads F g e\<close>: the rendering of every literal \<open>v\<close> of \<open>e\<close> is such a text,
  and \<^verbatim>\<open>ParseFloat\<close> reads it as \<open>g v\<close>.
\<close>

fun rereads :: "'v float64_ops \<Rightarrow> ('v \<Rightarrow> 'v) \<Rightarrow> 'v Expr \<Rightarrow> bool" where
  "rereads F g (num f) =
     (decimal_text (Sprintf_2f F f) \<and> ParseFloat F (Sprintf_2f F f) = Some (g f))"
| "rereads F g (unary op x) = rereads F g x"
| "rereads F g (binary op x y) = (rereads F g x \<and> rereads F g y)"

text \<open>The operators of a tree are signs and binary operators of the grammar.\<close>

fun operators_ok :: "'v Expr \<Rightarrow> bool" where
  "operators_ok (num f) = True"
| "operators_ok (unary op x) = ((op = Rune CHR ''+'' \<or> op = Rune CHR ''-'') \<and> operators_ok x)"
| "operators_ok (binary op x y) = (1 \<le> priority op \<and> operators_ok x \<and> operators_ok y)"

section \<open>Termination\<close>

lemma lex_next_length: "length (lex_next lx) \<le> length lx"
  by (simp add: lex_next_def split: list.split)

lemma lex_next_shorter: "lex_token lx \<noteq> scanner_EOF \<Longrightarrow> length (lex_next lx) < length lx"
  by (auto simp add: lex_next_def lex_token_def split: list.split)

lemma parse_consumes_partial:
  "parseExpr_parseBinary_parseBinary_for_parseBinary_while_parseUnary_parsePrimary_dom (Inl (Inl (F, lx))) \<Longrightarrow>
     length (snd (parseExpr F lx)) \<le> length lx \<and>
     (\<forall>e. fst (parseExpr F lx) = Ok e \<longrightarrow> length (snd (parseExpr F lx)) < length lx)"
  "parseExpr_parseBinary_parseBinary_for_parseBinary_while_parseUnary_parsePrimary_dom (Inl (Inr (Inl (F, lx, prio0)))) \<Longrightarrow>
     length (snd (parseBinary F lx prio0)) \<le> length lx \<and>
     (\<forall>e. fst (parseBinary F lx prio0) = Ok e \<longrightarrow> length (snd (parseBinary F lx prio0)) < length lx)"
  "parseExpr_parseBinary_parseBinary_for_parseBinary_while_parseUnary_parsePrimary_dom (Inl (Inr (Inr (F, lx, prio0, prio, left)))) \<Longrightarrow>
     length (snd (parseBinary_for F lx prio0 prio left)) \<le> length lx"
  "parseExpr_parseBinary_parseBinary_for_parseBinary_while_parseUnary_parsePrimary_dom (Inr (Inl (F, lx, prio, left))) \<Longrightarrow>
     length (snd (parseBinary_while F lx prio left)) \<le> length lx"
  "parseExpr_parseBinary_parseBinary_for_parseBinary_while_parseUnary_parsePrimary_dom (Inr (Inr (Inl (F, lx)))) \<Longrightarrow>
     length (snd (parseUnary F lx)) \<le> length lx \<and>
     (\<forall>e. fst (parseUnary F lx) = Ok e \<longrightarrow> length (snd (parseUnary F lx)) < length lx)"
  "parseExpr_parseBinary_parseBinary_for_parseBinary_while_parseUnary_parsePrimary_dom (Inr (Inr (Inr (F, lx)))) \<Longrightarrow>
     length (snd (parsePrimary F lx)) \<le> length lx \<and>
     (\<forall>e. fst (parsePrimary F lx) = Ok e \<longrightarrow> length (snd (parsePrimary F lx)) < length lx)"
proof (induct rule: parseExpr_parseBinary_parseBinary_for_parseBinary_while_parseUnary_parsePrimary.pinduct)
  case (1 F lx)
  then show ?case by (simp add: parseExpr.psimps)
next
  case (2 F lx prio0)
  then show ?case 
    apply (simp add: parseBinary.psimps split: prod.split outcome.split)
    apply (intro allI impI conjI)
    apply force+
    done
next
  case (3 F lx prio0 prio left)
  then show ?case 
    apply (simp add: parseBinary_for.psimps split: prod.split outcome.split)
    apply (intro allI impI conjI)
    apply force+
    done
next
  case (4 F lx prio left)
  then show ?case 
    using lex_next_length [of lx]
    apply (simp add: parseBinary_while.psimps split: prod.split outcome.split)
    apply (intro allI impI conjI)
    apply force+
    done
next
  case (5 F lx)
  then show ?case
    using lex_next_length [of lx] lex_next_shorter [of lx]
    apply (simp add: parseUnary.psimps split: prod.split outcome.split)
    apply (intro allI impI conjI)
    apply force+
    done
next
  case (6 F lx)
  show ?case
  proof (cases "lex_token lx = scanner_Int \<or> lex_token lx = scanner_Float")
    case True
    then have "lex_token lx \<noteq> scanner_EOF" by auto
    from lex_next_shorter [OF this] True 6(1) show ?thesis
      by (auto simp add: parsePrimary.psimps split: option.split)
  next
    case notnum: False
    show ?thesis
    proof (cases "lex_token lx = Rune (CHR ''('')")
      case True
      then have "lex_token lx \<noteq> scanner_EOF" by simp
      note sh = lex_next_shorter [OF this]
      obtain r lx1 where r: "parseExpr F (lex_next lx) = (r, lx1)" by force
      from 6(2) [OF notnum True] r
      have le: "length lx1 \<le> length (lex_next lx)" by simp
      have "length (lex_next lx1) \<le> length lx1" by (rule lex_next_length)
      with le sh 6(1) notnum True r show ?thesis
        by (auto simp add: parsePrimary.psimps split: outcome.split)
    next
      case False
      with notnum 6(1) show ?thesis by (simp add: parsePrimary.psimps)
    qed
  qed
qed

termination parseExpr
  apply (relation "measures
    [case_sum (case_sum (\<lambda>(F, lx). length lx)
                (case_sum (\<lambda>(F, lx, p0). length lx) (\<lambda>(F, lx, p0, p, l). length lx)))
              (case_sum (\<lambda>(F, lx, p, l). length lx)
                (case_sum (\<lambda>(F, lx). length lx) (\<lambda>(F, lx). length lx))),
     case_sum (case_sum (\<lambda>_. 3) (case_sum (\<lambda>_. 2) (\<lambda>_. 5)))
              (case_sum (\<lambda>_. 4) (case_sum (\<lambda>_. 1) (\<lambda>_. 0))),
     case_sum (case_sum (\<lambda>_. 0)
                (case_sum (\<lambda>_. 0) (\<lambda>(F, lx, p0, p, l). nat (p - p0 + 1))))
              (\<lambda>_. 0)]")
  apply simp_all
  subgoal for F lx x y x1
    using parse_consumes_partial(5) [of F lx] by (metis fst_conv snd_conv)
  subgoal for F lx prio0 prio left x y x1
    using parse_consumes_partial(4) [of F lx prio left] by (metis le_neq_implies_less snd_conv)
  subgoal for lx
    using lex_next_length [of lx] by linarith
  subgoal for F lx prio x y x1
    using parse_consumes_partial(2) [of F "lex_next lx" "prio + 1"] lex_next_length [of lx]
    by (metis fst_conv snd_conv less_le_trans)
  subgoal for lx
    by (rule lex_next_shorter) auto
  subgoal for lx
    by (rule lex_next_shorter) auto
  done


lemma evalparse_consumes_partial:
  "evalparseExpr_evalparseBinary_evalparseBinary_for_evalparseBinary_while_evalparseUnary_evalparsePrimary_dom (Inl (Inl (F, lx))) \<Longrightarrow>
     length (snd (evalparseExpr F lx)) \<le> length lx \<and>
     (\<forall>e. fst (evalparseExpr F lx) = Ok e \<longrightarrow> length (snd (evalparseExpr F lx)) < length lx)"
  "evalparseExpr_evalparseBinary_evalparseBinary_for_evalparseBinary_while_evalparseUnary_evalparsePrimary_dom (Inl (Inr (Inl (F, lx, prio0)))) \<Longrightarrow>
     length (snd (evalparseBinary F lx prio0)) \<le> length lx \<and>
     (\<forall>e. fst (evalparseBinary F lx prio0) = Ok e \<longrightarrow> length (snd (evalparseBinary F lx prio0)) < length lx)"
  "evalparseExpr_evalparseBinary_evalparseBinary_for_evalparseBinary_while_evalparseUnary_evalparsePrimary_dom (Inl (Inr (Inr (F, lx, prio0, prio, left)))) \<Longrightarrow>
     length (snd (evalparseBinary_for F lx prio0 prio left)) \<le> length lx"
  "evalparseExpr_evalparseBinary_evalparseBinary_for_evalparseBinary_while_evalparseUnary_evalparsePrimary_dom (Inr (Inl (F, lx, prio, left))) \<Longrightarrow>
     length (snd (evalparseBinary_while F lx prio left)) \<le> length lx"
  "evalparseExpr_evalparseBinary_evalparseBinary_for_evalparseBinary_while_evalparseUnary_evalparsePrimary_dom (Inr (Inr (Inl (F, lx)))) \<Longrightarrow>
     length (snd (evalparseUnary F lx)) \<le> length lx \<and>
     (\<forall>e. fst (evalparseUnary F lx) = Ok e \<longrightarrow> length (snd (evalparseUnary F lx)) < length lx)"
  "evalparseExpr_evalparseBinary_evalparseBinary_for_evalparseBinary_while_evalparseUnary_evalparsePrimary_dom (Inr (Inr (Inr (F, lx)))) \<Longrightarrow>
     length (snd (evalparsePrimary F lx)) \<le> length lx \<and>
     (\<forall>e. fst (evalparsePrimary F lx) = Ok e \<longrightarrow> length (snd (evalparsePrimary F lx)) < length lx)"
proof (induct rule: evalparseExpr_evalparseBinary_evalparseBinary_for_evalparseBinary_while_evalparseUnary_evalparsePrimary.pinduct)
  case (1 F lx)
  then show ?case by (simp add: evalparseExpr.psimps)
next
  case (2 F lx prio0)
  then show ?case 
    apply (simp add: evalparseBinary.psimps split: prod.split outcome.split)
    apply (intro allI impI conjI)
    apply force+
    done
next
  case (3 F lx prio0 prio left)
  then show ?case 
    apply (simp add: evalparseBinary_for.psimps split: prod.split outcome.split)
    apply (intro allI impI conjI)
    apply force+
    done
next
  case (4 F lx prio left)
  then show ?case 
    using lex_next_length [of lx]
    apply (simp add: evalparseBinary_while.psimps split: prod.split outcome.split)
    apply (intro allI impI conjI)
    apply force+
    done
next
  case (5 F lx)
  then show ?case
    using lex_next_length [of lx] lex_next_shorter [of lx]
    apply (simp add: evalparseUnary.psimps split: prod.split outcome.split)
    apply (intro allI impI conjI)
    apply force+
    done
next
  case (6 F lx)
  show ?case
  proof (cases "lex_token lx = scanner_Int \<or> lex_token lx = scanner_Float")
    case True
    then have "lex_token lx \<noteq> scanner_EOF" by auto
    from lex_next_shorter [OF this] True 6(1) show ?thesis
      by (auto simp add: evalparsePrimary.psimps split: option.split)
  next
    case notnum: False
    show ?thesis
    proof (cases "lex_token lx = Rune (CHR ''('')")
      case True
      then have "lex_token lx \<noteq> scanner_EOF" by simp
      note sh = lex_next_shorter [OF this]
      obtain r lx1 where r: "evalparseExpr F (lex_next lx) = (r, lx1)" by force
      from 6(2) [OF notnum True] r
      have le: "length lx1 \<le> length (lex_next lx)" by simp
      have "length (lex_next lx1) \<le> length lx1" by (rule lex_next_length)
      with le sh 6(1) notnum True r show ?thesis
        by (auto simp add: evalparsePrimary.psimps split: outcome.split)
    next
      case False
      with notnum 6(1) show ?thesis by (simp add: evalparsePrimary.psimps)
    qed
  qed
qed

termination evalparseExpr
  apply (relation "measures
    [case_sum (case_sum (\<lambda>(F, lx). length lx)
                (case_sum (\<lambda>(F, lx, p0). length lx) (\<lambda>(F, lx, p0, p, l). length lx)))
              (case_sum (\<lambda>(F, lx, p, l). length lx)
                (case_sum (\<lambda>(F, lx). length lx) (\<lambda>(F, lx). length lx))),
     case_sum (case_sum (\<lambda>_. 3) (case_sum (\<lambda>_. 2) (\<lambda>_. 5)))
              (case_sum (\<lambda>_. 4) (case_sum (\<lambda>_. 1) (\<lambda>_. 0))),
     case_sum (case_sum (\<lambda>_. 0)
                (case_sum (\<lambda>_. 0) (\<lambda>(F, lx, p0, p, l). nat (p - p0 + 1))))
              (\<lambda>_. 0)]")
  apply simp_all
  subgoal for F lx x y x1
    using evalparse_consumes_partial(5) [of F lx] by (metis fst_conv snd_conv)
  subgoal for F lx prio0 prio left x y x1
    using evalparse_consumes_partial(4) [of F lx prio left] by (metis le_neq_implies_less snd_conv)
  subgoal for lx
    using lex_next_length [of lx] by linarith
  subgoal for F lx prio x y x1
    using evalparse_consumes_partial(2) [of F "lex_next lx" "prio + 1"] lex_next_length [of lx]
    by (metis fst_conv snd_conv less_le_trans)
  subgoal for lx
    by (rule lex_next_shorter) auto
  subgoal for lx
    by (rule lex_next_shorter) auto
  done


section \<open>Evaluating the definitions\<close>

lemmas scan_defs =
  Parse_string_def EvalParse_string_def Scan_tokens_def plain_def isDecimal_def isWhitespace_def

lemmas lex_defs = lex_token_def lex_next_def lex_text_def lex_String_def priority_def

section \<open>One step of each parsing function\<close>

lemmas parse_induct =
  parseExpr_parseBinary_parseBinary_for_parseBinary_while_parseUnary_parsePrimary.induct

lemmas evalparse_induct =
  evalparseExpr_evalparseBinary_evalparseBinary_for_evalparseBinary_while_evalparseUnary_evalparsePrimary.induct

lemmas parse_simps =
  parseExpr.simps parseBinary.simps parseBinary_for.simps parseBinary_while.simps
  parseUnary.simps parsePrimary.simps

lemmas evalparse_simps =
  evalparseExpr.simps evalparseBinary.simps evalparseBinary_for.simps
  evalparseBinary_while.simps evalparseUnary.simps evalparsePrimary.simps

declare parse_simps [simp del]

declare evalparse_simps [simp del]

lemma parseBinary_Ok:
  "parseBinary F lx prio0 = (Ok e, lx') \<longleftrightarrow>
     (\<exists>left lx1. parseUnary F lx = (Ok left, lx1)
        \<and> parseBinary_for F lx1 prio0 (priority (lex_token lx1)) left = (Ok e, lx'))"
  by (subst parseBinary.simps) (auto split: prod.splits outcome.splits)

lemma parseBinary_for_Ok:
  "parseBinary_for F lx prio0 prio left = (Ok e, lx') \<longleftrightarrow>
     (if prio0 \<le> prio
      then \<exists>left' lx1. parseBinary_while F lx prio left = (Ok left', lx1)
             \<and> parseBinary_for F lx1 prio0 (prio - 1) left' = (Ok e, lx')
      else e = left \<and> lx' = lx)"
  by (subst parseBinary_for.simps) (auto split: prod.splits outcome.splits)

lemma parseBinary_while_Ok:
  "parseBinary_while F lx prio left = (Ok e, lx') \<longleftrightarrow>
     (if priority (lex_token lx) = prio
      then \<exists>right lx1. parseBinary F (lex_next lx) (prio + 1) = (Ok right, lx1)
             \<and> parseBinary_while F lx1 prio (binary (lex_token lx) left right) = (Ok e, lx')
      else e = left \<and> lx' = lx)"
  by (subst parseBinary_while.simps) (auto split: prod.splits outcome.splits)

lemma parseUnary_Ok:
  "parseUnary F lx = (Ok e, lx') \<longleftrightarrow>
     (if lex_token lx = Rune CHR ''+'' \<or> lex_token lx = Rune CHR ''-''
      then \<exists>x. parseUnary F (lex_next lx) = (Ok x, lx') \<and> e = unary (lex_token lx) x
      else parsePrimary F lx = (Ok e, lx'))"
  by (subst parseUnary.simps) (auto split: prod.splits outcome.splits)

lemma parsePrimary_Ok:
  "parsePrimary F lx = (Ok e, lx') \<longleftrightarrow>
     (if lex_token lx = scanner_Int \<or> lex_token lx = scanner_Float
      then \<exists>f. ParseFloat F (lex_text lx) = Some f \<and> e = num f \<and> lx' = lex_next lx
      else lex_token lx = Rune CHR ''(''
        \<and> (\<exists>lx1. parseExpr F (lex_next lx) = (Ok e, lx1)
              \<and> lex_token lx1 = Rune CHR '')'' \<and> lx' = lex_next lx1))"
  by (subst parsePrimary.simps) (auto split: prod.splits outcome.splits option.splits)

lemma evalparseBinary_Ok:
  "evalparseBinary F lx prio0 = (Ok e, lx') \<longleftrightarrow>
     (\<exists>left lx1 left'. evalparseUnary F lx = (Ok left, lx1)
        \<and> evalparseBinary_for F lx1 prio0 (priority (lex_token lx1)) left = (Ok left', lx')
        \<and> e = num (fst (Eval F left')))"
  by (subst evalparseBinary.simps) (auto split: prod.splits outcome.splits)

lemma evalparseBinary_for_Ok:
  "evalparseBinary_for F lx prio0 prio left = (Ok e, lx') \<longleftrightarrow>
     (if prio0 \<le> prio
      then \<exists>left' lx1. evalparseBinary_while F lx prio left = (Ok left', lx1)
             \<and> evalparseBinary_for F lx1 prio0 (prio - 1) left' = (Ok e, lx')
      else e = left \<and> lx' = lx)"
  by (subst evalparseBinary_for.simps) (auto split: prod.splits outcome.splits)

lemma evalparseBinary_while_Ok:
  "evalparseBinary_while F lx prio left = (Ok e, lx') \<longleftrightarrow>
     (if priority (lex_token lx) = prio
      then \<exists>right lx1. evalparseBinary F (lex_next lx) (prio + 1) = (Ok right, lx1)
             \<and> evalparseBinary_while F lx1 prio
                  (binary (lex_token lx) (num (fst (Eval F left))) right) = (Ok e, lx')
      else e = left \<and> lx' = lx)"
  by (subst evalparseBinary_while.simps) (auto split: prod.splits outcome.splits)

lemma evalparseUnary_Ok:
  "evalparseUnary F lx = (Ok e, lx') \<longleftrightarrow>
     (if lex_token lx = Rune CHR ''+'' \<or> lex_token lx = Rune CHR ''-''
      then \<exists>x. evalparseUnary F (lex_next lx) = (Ok x, lx')
             \<and> e = unary (lex_token lx) (num (fst (Eval F x)))
      else evalparsePrimary F lx = (Ok e, lx'))"
  by (subst evalparseUnary.simps) (auto split: prod.splits outcome.splits)

lemma evalparsePrimary_Ok:
  "evalparsePrimary F lx = (Ok e, lx') \<longleftrightarrow>
     (if lex_token lx = scanner_Int \<or> lex_token lx = scanner_Float
      then \<exists>f. ParseFloat F (lex_text lx) = Some f \<and> e = num f \<and> lx' = lex_next lx
      else lex_token lx = Rune CHR ''(''
        \<and> (\<exists>x lx1. evalparseExpr F (lex_next lx) = (Ok x, lx1)
              \<and> lex_token lx1 = Rune CHR '')'' \<and> e = num (fst (Eval F x))
              \<and> lx' = lex_next lx1))"
  by (subst evalparsePrimary.simps) (auto split: prod.splits outcome.splits option.splits)

section \<open>What is left of the input\<close>

lemma lex_next_suffix: "suffix (lex_next lx) lx"
  by (cases lx) (auto simp add: lex_next_def suffix_def)

lemma suffix_next: "suffix a (lex_next lx) \<Longrightarrow> suffix a lx"
  using lex_next_suffix suffix_order.trans by blast

lemma parse_suffix:
  "suffix (snd (parseExpr F lx)) lx"
  "suffix (snd (parseBinary F lx prio0)) lx"
  "suffix (snd (parseBinary_for F lx prio0 prio left)) lx"
  "suffix (snd (parseBinary_while F lx prio left)) lx"
  "suffix (snd (parseUnary F lx)) lx"
  "suffix (snd (parsePrimary F lx)) lx"
proof (induct F lx and F lx prio0 and F lx prio0 prio left and F lx prio left and F lx and F lx
    rule: parse_induct)
  case (1 F lx)
  then show ?case by (simp add: parseExpr.simps)
next
  case (2 F lx prio0)
  obtain r lx1 where u: "parseUnary F lx = (r, lx1)" by (cases "parseUnary F lx")
  with 2(1) have s1: "suffix lx1 lx" by simp
  show ?case
  proof (cases r)
    case (Ok left)
    from 2(2) [OF u [symmetric] Ok] s1 show ?thesis
      by (auto simp add: parseBinary.simps [of F lx] u Ok intro: suffix_order.trans)
  qed (use u s1 in \<open>simp_all add: parseBinary.simps [of F lx]\<close>)
next
  case (3 F lx prio0 prio left)
  show ?case
  proof (cases "prio0 \<le> prio")
    case True
    obtain r lx1 where u: "parseBinary_while F lx prio left = (r, lx1)"
      by (cases "parseBinary_while F lx prio left")
    with 3(1) [OF True] have s1: "suffix lx1 lx" by simp
    show ?thesis
    proof (cases r)
      case (Ok left')
      from 3(2) [OF True u [symmetric] Ok] s1 show ?thesis
        by (auto simp add: parseBinary_for.simps [of F lx] u Ok True intro: suffix_order.trans)
    qed (use u s1 True in \<open>simp_all add: parseBinary_for.simps [of F lx]\<close>)
  next
    case False
    then show ?thesis by (simp add: parseBinary_for.simps [of F lx])
  qed
next
  case (4 F lx prio left)
  show ?case
  proof (cases "priority (lex_token lx) = prio")
    case True
    obtain r lx1 where u: "parseBinary F (lex_next lx) (prio + 1) = (r, lx1)"
      by (cases "parseBinary F (lex_next lx) (prio + 1)")
    with 4(1) [OF True] have s1: "suffix lx1 lx" by (simp add: suffix_next)
    show ?thesis
    proof (cases r)
      case (Ok right)
      from 4(2) [OF True u [symmetric] Ok] s1 show ?thesis
        by (auto simp add: parseBinary_while.simps [of F lx] u Ok True intro: suffix_order.trans)
    qed (use u s1 True in \<open>simp_all add: parseBinary_while.simps [of F lx]\<close>)
  next
    case False
    then show ?thesis by (simp add: parseBinary_while.simps [of F lx])
  qed
next
  case (5 F lx)
  show ?case
  proof (cases "lex_token lx = Rune CHR ''+'' \<or> lex_token lx = Rune CHR ''-''")
    case True
    obtain r lx1 where u: "parseUnary F (lex_next lx) = (r, lx1)"
      by (cases "parseUnary F (lex_next lx)")
    with 5(1) [OF True] have s1: "suffix lx1 lx" by (simp add: suffix_next)
    with u True show ?thesis
      by (cases r) (simp_all add: parseUnary.simps [of F lx])
  next
    case False
    with 5(2) show ?thesis by (simp add: parseUnary.simps [of F lx])
  qed
next
  case (6 F lx)
  show ?case
  proof (cases "lex_token lx = scanner_Int \<or> lex_token lx = scanner_Float")
    case True
    then show ?thesis
      by (simp add: parsePrimary.simps [of F lx] lex_next_suffix split: option.split)
  next
    case notnum: False
    show ?thesis
    proof (cases "lex_token lx = Rune CHR ''(''")
      case True
      obtain r lx1 where u: "parseExpr F (lex_next lx) = (r, lx1)"
        by (cases "parseExpr F (lex_next lx)")
      with 6 [OF notnum True] have s1: "suffix lx1 lx" by (simp add: suffix_next)
      then have "suffix (lex_next lx1) lx"
        using lex_next_suffix suffix_order.trans by blast
      with s1 u True notnum show ?thesis
        by (cases r) (simp_all add: parsePrimary.simps [of F lx])
    next
      case False
      with notnum show ?thesis by (simp add: parsePrimary.simps [of F lx])
    qed
  qed
qed

section \<open>The size of a parsed tree\<close>

lemmas symbols_defs = symbols_def literals_def operators_def is_literal_def is_operator_def

lemma scanned_suffix: "suffix a b \<Longrightarrow> scanned b \<Longrightarrow> scanned a"
  by (auto simp add: scanned_def suffix_def)

lemma scanned_EOF: "scanned lx \<Longrightarrow> lex_token lx = scanner_EOF \<Longrightarrow> lx = []"
  by (cases lx) (auto simp add: scanned_def lex_token_def)

lemma Parse_Ok:
  "Parse F r = Ok e \<longleftrightarrow> (\<exists>lx. parseExpr F r = (Ok e, lx) \<and> lex_token lx = scanner_EOF)"
  by (auto simp add: Parse_def split: prod.splits outcome.splits)

lemma EvalParse_Ok:
  "EvalParse F r = Ok e \<longleftrightarrow>
     (\<exists>lx. evalparseExpr F r = (Ok e, lx) \<and> lex_token lx = scanner_EOF)"
  by (auto simp add: EvalParse_def split: prod.splits outcome.splits)

lemma Parse_Ok_scanned:
  assumes "scanned r" and "Parse F r = Ok e"
  shows "parseExpr F r = (Ok e, [])"
proof -
  from assms(2) obtain lx where p: "parseExpr F r = (Ok e, lx)" and t: "lex_token lx = scanner_EOF"
    unfolding Parse_Ok by blast
  from parse_suffix(1) [of F r] p have "suffix lx r" by simp
  from this assms(1) have "scanned lx" by (rule scanned_suffix)
  from this t have "lx = []" by (rule scanned_EOF)
  with p show ?thesis by simp
qed

lemma symbols_literal:
  "lex_token lx = scanner_Int \<or> lex_token lx = scanner_Float
     \<Longrightarrow> symbols lx = symbols (lex_next lx) + 1"
  by (cases lx) (auto simp add: symbols_defs lex_token_def lex_next_def)

lemma symbols_operator:
  "1 \<le> priority (lex_token lx) \<Longrightarrow> symbols lx = symbols (lex_next lx) + 1"
  by (cases lx)
    (auto simp add: symbols_defs lex_token_def lex_next_def priority_def split: if_splits)

lemma symbols_paren:
  "lex_token lx = Rune CHR ''('' \<or> lex_token lx = Rune CHR '')''
     \<Longrightarrow> symbols lx = symbols (lex_next lx)"
  by (cases lx) (auto simp add: symbols_defs lex_token_def lex_next_def)

lemma parse_Len:
  "parseExpr F lx = (Ok e, lx') \<Longrightarrow> Len e + symbols lx' = symbols lx"
  "1 \<le> prio0 \<Longrightarrow> parseBinary F lx prio0 = (Ok e, lx') \<Longrightarrow> Len e + symbols lx' = symbols lx"
  "1 \<le> prio0 \<Longrightarrow> parseBinary_for F lx prio0 prio left = (Ok e, lx')
     \<Longrightarrow> Len e + symbols lx' = Len left + symbols lx"
  "1 \<le> prio \<Longrightarrow> parseBinary_while F lx prio left = (Ok e, lx')
     \<Longrightarrow> Len e + symbols lx' = Len left + symbols lx"
  "parseUnary F lx = (Ok e, lx') \<Longrightarrow> Len e + symbols lx' = symbols lx"
  "parsePrimary F lx = (Ok e, lx') \<Longrightarrow> Len e + symbols lx' = symbols lx"
proof (induct F lx and F lx prio0 and F lx prio0 prio left and F lx prio left and F lx and F lx
    arbitrary: e lx' and e lx' and e lx' and e lx' and e lx' and e lx' rule: parse_induct)
  case (1 F lx)
  then show ?case by (simp add: parseExpr.simps)
next
  case (2 F lx prio0)
  from 2(4) obtain left lx1 where u: "parseUnary F lx = (Ok left, lx1)"
    and f: "parseBinary_for F lx1 prio0 (priority (lex_token lx1)) left = (Ok e, lx')"
    unfolding parseBinary_Ok [of F lx prio0 e lx'] by blast
  from 2(1) [OF u] 2(2) [OF u [symmetric] refl 2(3) f] show ?case by simp
next
  case (3 F lx prio0 prio left)
  show ?case
  proof (cases "prio0 \<le> prio")
    case True
    with 3(4) obtain left' lx1 where w: "parseBinary_while F lx prio left = (Ok left', lx1)"
      and f: "parseBinary_for F lx1 prio0 (prio - 1) left' = (Ok e, lx')"
      unfolding parseBinary_for_Ok [of F lx prio0 prio left e lx'] by auto
    from True 3(3) have "1 \<le> prio" by simp
    from 3(1) [OF True this w] 3(2) [OF True w [symmetric] refl 3(3) f] show ?thesis by simp
  next
    case False
    with 3(4) show ?thesis
      unfolding parseBinary_for_Ok [of F lx prio0 prio left e lx'] by simp
  qed
next
  case (4 F lx prio left)
  show ?case
  proof (cases "priority (lex_token lx) = prio")
    case True
    with 4(4) obtain right lx1
      where b: "parseBinary F (lex_next lx) (prio + 1) = (Ok right, lx1)"
      and w: "parseBinary_while F lx1 prio (binary (lex_token lx) left right) = (Ok e, lx')"
      unfolding parseBinary_while_Ok [of F lx prio left e lx'] by auto
    from 4(3) have "1 \<le> prio + 1" by simp
    from 4(1) [OF True this b] 4(2) [OF True b [symmetric] refl 4(3) w]
      symbols_operator [of lx] True 4(3)
    show ?thesis by simp
  next
    case False
    with 4(4) show ?thesis
      unfolding parseBinary_while_Ok [of F lx prio left e lx'] by simp
  qed
next
  case (5 F lx)
  show ?case
  proof (cases "lex_token lx = Rune CHR ''+'' \<or> lex_token lx = Rune CHR ''-''")
    case True
    with 5(3) obtain x where u: "parseUnary F (lex_next lx) = (Ok x, lx')"
      and e: "e = unary (lex_token lx) x"
      unfolding parseUnary_Ok [of F lx e lx'] by auto
    from True have "1 \<le> priority (lex_token lx)" by (auto simp add: priority_def)
    from 5(1) [OF True u] symbols_operator [OF this] e show ?thesis by simp
  next
    case False
    with 5(3) have "parsePrimary F lx = (Ok e, lx')"
      unfolding parseUnary_Ok [of F lx e lx'] by simp
    from 5(2) [OF False this] show ?thesis .
  qed
next
  case (6 F lx)
  show ?case
  proof (cases "lex_token lx = scanner_Int \<or> lex_token lx = scanner_Float")
    case True
    with 6(2) symbols_literal [OF True] show ?thesis
      unfolding parsePrimary_Ok [of F lx e lx'] by auto
  next
    case False
    with 6(2) obtain lx1 where p: "lex_token lx = Rune CHR ''(''"
      and x: "parseExpr F (lex_next lx) = (Ok e, lx1)"
      and c: "lex_token lx1 = Rune CHR '')''" and l: "lx' = lex_next lx1"
      unfolding parsePrimary_Ok [of F lx e lx'] by auto
    from 6(1) [OF False p x] symbols_paren [of lx] symbols_paren [of lx1] p c l
    show ?thesis by simp
  qed
qed

section \<open>The fused parser against the tree-building parser\<close>

lemma eager_value_Eval: "snd (Eval F e) = None \<Longrightarrow> eager_value F e = fst (Eval F e)"
  by (induction e) (auto split: prod.splits option.splits if_splits)

lemma fused_simulates:
  "parseExpr F lx = (Ok e, lx') \<Longrightarrow> evalparseExpr F lx = (Ok (num (eager_value F e)), lx')"
  "parseBinary F lx prio0 = (Ok e, lx')
     \<Longrightarrow> evalparseBinary F lx prio0 = (Ok (num (eager_value F e)), lx')"
  "parseBinary_for F lx prio0 prio left = (Ok e, lx') \<Longrightarrow> fst (Eval F l) = eager_value F left
     \<Longrightarrow> \<exists>e'. evalparseBinary_for F lx prio0 prio l = (Ok e', lx')
            \<and> fst (Eval F e') = eager_value F e"
  "parseBinary_while F lx prio left = (Ok e, lx') \<Longrightarrow> fst (Eval F l) = eager_value F left
     \<Longrightarrow> \<exists>e'. evalparseBinary_while F lx prio l = (Ok e', lx')
            \<and> fst (Eval F e') = eager_value F e"
  "parseUnary F lx = (Ok e, lx')
     \<Longrightarrow> \<exists>e'. evalparseUnary F lx = (Ok e', lx') \<and> fst (Eval F e') = eager_value F e"
  "parsePrimary F lx = (Ok e, lx')
     \<Longrightarrow> \<exists>e'. evalparsePrimary F lx = (Ok e', lx') \<and> fst (Eval F e') = eager_value F e"
proof (induct F lx and F lx prio0 and F lx prio0 prio left and F lx prio left and F lx and F lx
    arbitrary: e lx' and e lx' and e lx' l and e lx' l and e lx' and e lx' rule: parse_induct)
  case (1 F lx)
  then show ?case by (simp add: parseExpr.simps evalparseExpr.simps)
next
  case (2 F lx prio0)
  from 2(3) obtain left lx1 where u: "parseUnary F lx = (Ok left, lx1)"
    and f: "parseBinary_for F lx1 prio0 (priority (lex_token lx1)) left = (Ok e, lx')"
    unfolding parseBinary_Ok [of F lx prio0 e lx'] by blast
  from 2(1) [OF u] obtain l where u': "evalparseUnary F lx = (Ok l, lx1)"
    and l: "fst (Eval F l) = eager_value F left" by blast
  from 2(2) [OF u [symmetric] refl f l] obtain e'
    where f': "evalparseBinary_for F lx1 prio0 (priority (lex_token lx1)) l = (Ok e', lx')"
    and e': "fst (Eval F e') = eager_value F e" by blast
  from u' f' e' show ?case
    unfolding evalparseBinary_Ok [of F lx prio0 "num (eager_value F e)" lx'] by auto
next
  case (3 F lx prio0 prio left)
  show ?case
  proof (cases "prio0 \<le> prio")
    case True
    with 3(3) obtain left' lx1 where w: "parseBinary_while F lx prio left = (Ok left', lx1)"
      and f: "parseBinary_for F lx1 prio0 (prio - 1) left' = (Ok e, lx')"
      unfolding parseBinary_for_Ok [of F lx prio0 prio left e lx'] by auto
    from 3(1) [OF True w 3(4)] obtain l' where w': "evalparseBinary_while F lx prio l = (Ok l', lx1)"
      and l': "fst (Eval F l') = eager_value F left'" by blast
    from 3(2) [OF True w [symmetric] refl f l'] obtain e'
      where f': "evalparseBinary_for F lx1 prio0 (prio - 1) l' = (Ok e', lx')"
      and e': "fst (Eval F e') = eager_value F e" by blast
    from True w' f' have "evalparseBinary_for F lx prio0 prio l = (Ok e', lx')"
      unfolding evalparseBinary_for_Ok [of F lx prio0 prio l e' lx'] by auto
    with e' show ?thesis by blast
  next
    case False
    with 3(3) have "e = left" "lx' = lx"
      unfolding parseBinary_for_Ok [of F lx prio0 prio left e lx'] by simp_all
    moreover from False have "evalparseBinary_for F lx prio0 prio l = (Ok l, lx)"
      unfolding evalparseBinary_for_Ok [of F lx prio0 prio l l lx] by simp
    ultimately show ?thesis using 3(4) by simp
  qed
next
  case (4 F lx prio left)
  show ?case
  proof (cases "priority (lex_token lx) = prio")
    case True
    with 4(3) obtain right lx1
      where b: "parseBinary F (lex_next lx) (prio + 1) = (Ok right, lx1)"
      and w: "parseBinary_while F lx1 prio (binary (lex_token lx) left right) = (Ok e, lx')"
      unfolding parseBinary_while_Ok [of F lx prio left e lx'] by auto
    let ?r = "num (eager_value F right)"
    let ?l = "binary (lex_token lx) (num (fst (Eval F l))) ?r"
    from 4(1) [OF True b]
    have b': "evalparseBinary F (lex_next lx) (prio + 1) = (Ok ?r, lx1)" .
    have "fst (Eval F ?l) = eager_value F (binary (lex_token lx) left right)"
      using 4(4) by simp
    from 4(2) [OF True b [symmetric] refl w this] obtain e'
      where w': "evalparseBinary_while F lx1 prio ?l = (Ok e', lx')"
      and e': "fst (Eval F e') = eager_value F e" by blast
    from True b' w' have "evalparseBinary_while F lx prio l = (Ok e', lx')"
      unfolding evalparseBinary_while_Ok [of F lx prio l e' lx'] by auto
    with e' show ?thesis by blast
  next
    case False
    with 4(3) have "e = left" "lx' = lx"
      unfolding parseBinary_while_Ok [of F lx prio left e lx'] by simp_all
    moreover from False have "evalparseBinary_while F lx prio l = (Ok l, lx)"
      unfolding evalparseBinary_while_Ok [of F lx prio l l lx] by simp
    ultimately show ?thesis using 4(4) by simp
  qed
next
  case (5 F lx)
  show ?case
  proof (cases "lex_token lx = Rune CHR ''+'' \<or> lex_token lx = Rune CHR ''-''")
    case True
    with 5(3) obtain x where u: "parseUnary F (lex_next lx) = (Ok x, lx')"
      and e: "e = unary (lex_token lx) x"
      unfolding parseUnary_Ok [of F lx e lx'] by auto
    from 5(1) [OF True u] obtain x' where u': "evalparseUnary F (lex_next lx) = (Ok x', lx')"
      and x': "fst (Eval F x') = eager_value F x" by blast
    let ?e' = "unary (lex_token lx) (num (fst (Eval F x')))"
    from True u' have "evalparseUnary F lx = (Ok ?e', lx')"
      unfolding evalparseUnary_Ok [of F lx ?e' lx'] by auto
    moreover from x' e have "fst (Eval F ?e') = eager_value F e" by simp
    ultimately show ?thesis by blast
  next
    case False
    with 5(3) have "parsePrimary F lx = (Ok e, lx')"
      unfolding parseUnary_Ok [of F lx e lx'] by simp
    from 5(2) [OF False this] obtain e' where p: "evalparsePrimary F lx = (Ok e', lx')"
      and e': "fst (Eval F e') = eager_value F e" by blast
    from False p have "evalparseUnary F lx = (Ok e', lx')"
      unfolding evalparseUnary_Ok [of F lx e' lx'] by simp
    with e' show ?thesis by blast
  qed
next
  case (6 F lx)
  show ?case
  proof (cases "lex_token lx = scanner_Int \<or> lex_token lx = scanner_Float")
    case True
    with 6(2) obtain f where f: "ParseFloat F (lex_text lx) = Some f" "e = num f" "lx' = lex_next lx"
      unfolding parsePrimary_Ok [of F lx e lx'] by auto
    with True have "evalparsePrimary F lx = (Ok (num f), lx')"
      unfolding evalparsePrimary_Ok [of F lx "num f" lx'] by simp
    with f show ?thesis by simp
  next
    case False
    with 6(2) obtain lx1 where p: "lex_token lx = Rune CHR ''(''"
      and x: "parseExpr F (lex_next lx) = (Ok e, lx1)"
      and c: "lex_token lx1 = Rune CHR '')''" and l: "lx' = lex_next lx1"
      unfolding parsePrimary_Ok [of F lx e lx'] by auto
    let ?e' = "num (eager_value F e)"
    from 6(1) [OF False p x] have "evalparseExpr F (lex_next lx) = (Ok ?e', lx1)" .
    with False p c l have "evalparsePrimary F lx = (Ok ?e', lx')"
      unfolding evalparsePrimary_Ok [of F lx ?e' lx'] by auto
    then show ?thesis by simp
  qed
qed

lemma fused_success:
  "evalparseExpr F lx = (Ok e', lx') \<Longrightarrow> \<exists>e. parseExpr F lx = (Ok e, lx')"
  "evalparseBinary F lx prio0 = (Ok e', lx') \<Longrightarrow> \<exists>e. parseBinary F lx prio0 = (Ok e, lx')"
  "evalparseBinary_for F lx prio0 prio l = (Ok e', lx')
     \<Longrightarrow> \<exists>e. parseBinary_for F lx prio0 prio left = (Ok e, lx')"
  "evalparseBinary_while F lx prio l = (Ok e', lx')
     \<Longrightarrow> \<exists>e. parseBinary_while F lx prio left = (Ok e, lx')"
  "evalparseUnary F lx = (Ok e', lx') \<Longrightarrow> \<exists>e. parseUnary F lx = (Ok e, lx')"
  "evalparsePrimary F lx = (Ok e', lx') \<Longrightarrow> \<exists>e. parsePrimary F lx = (Ok e, lx')"
proof (induct F lx and F lx prio0 and F lx prio0 prio l and F lx prio l and F lx and F lx
    arbitrary: e' lx' and e' lx' and e' lx' left and e' lx' left and e' lx' and e' lx'
    rule: evalparse_induct)
  case (1 F lx)
  then show ?case by (simp add: parseExpr.simps evalparseExpr.simps)
next
  case (2 F lx prio0)
  from 2(3) obtain l lx1 l' where u': "evalparseUnary F lx = (Ok l, lx1)"
    and f': "evalparseBinary_for F lx1 prio0 (priority (lex_token lx1)) l = (Ok l', lx')"
    unfolding evalparseBinary_Ok [of F lx prio0 e' lx'] by blast
  from 2(1) [OF u'] obtain left where u: "parseUnary F lx = (Ok left, lx1)" by blast
  from 2(2) [OF u' [symmetric] refl f', of left] obtain e
    where "parseBinary_for F lx1 prio0 (priority (lex_token lx1)) left = (Ok e, lx')" by blast
  with u show ?case unfolding parseBinary_Ok [of F lx prio0 _ lx'] by blast
next
  case (3 F lx prio0 prio l)
  show ?case
  proof (cases "prio0 \<le> prio")
    case True
    with 3(3) obtain l' lx1 where w': "evalparseBinary_while F lx prio l = (Ok l', lx1)"
      and f': "evalparseBinary_for F lx1 prio0 (prio - 1) l' = (Ok e', lx')"
      unfolding evalparseBinary_for_Ok [of F lx prio0 prio l e' lx'] by auto
    from 3(1) [OF True w', of left] obtain left'
      where w: "parseBinary_while F lx prio left = (Ok left', lx1)" by blast
    from 3(2) [OF True w' [symmetric] refl f', of left'] obtain e
      where f: "parseBinary_for F lx1 prio0 (prio - 1) left' = (Ok e, lx')" by blast
    from True w f have "parseBinary_for F lx prio0 prio left = (Ok e, lx')"
      unfolding parseBinary_for_Ok [of F lx prio0 prio left e lx'] by auto
    then show ?thesis by blast
  next
    case False
    with 3(3) have "lx' = lx"
      unfolding evalparseBinary_for_Ok [of F lx prio0 prio l e' lx'] by simp
    with False have "parseBinary_for F lx prio0 prio left = (Ok left, lx')"
      unfolding parseBinary_for_Ok [of F lx prio0 prio left left lx'] by simp
    then show ?thesis by blast
  qed
next
  case (4 F lx prio l)
  show ?case
  proof (cases "priority (lex_token lx) = prio")
    case True
    with 4(3) obtain r' lx1
      where b': "evalparseBinary F (lex_next lx) (prio + 1) = (Ok r', lx1)"
      and w': "evalparseBinary_while F lx1 prio
                 (binary (lex_token lx) (num (fst (Eval F l))) r') = (Ok e', lx')"
      unfolding evalparseBinary_while_Ok [of F lx prio l e' lx'] by auto
    from 4(1) [OF True b'] obtain right
      where b: "parseBinary F (lex_next lx) (prio + 1) = (Ok right, lx1)" by blast
    from 4(2) [OF True b' [symmetric] refl w', of "binary (lex_token lx) left right"] obtain e
      where w: "parseBinary_while F lx1 prio (binary (lex_token lx) left right) = (Ok e, lx')"
      by blast
    from True b w have "parseBinary_while F lx prio left = (Ok e, lx')"
      unfolding parseBinary_while_Ok [of F lx prio left e lx'] by auto
    then show ?thesis by blast
  next
    case False
    with 4(3) have "lx' = lx"
      unfolding evalparseBinary_while_Ok [of F lx prio l e' lx'] by simp
    with False have "parseBinary_while F lx prio left = (Ok left, lx')"
      unfolding parseBinary_while_Ok [of F lx prio left left lx'] by simp
    then show ?thesis by blast
  qed
next
  case (5 F lx)
  show ?case
  proof (cases "lex_token lx = Rune CHR ''+'' \<or> lex_token lx = Rune CHR ''-''")
    case True
    with 5(3) obtain x' where u': "evalparseUnary F (lex_next lx) = (Ok x', lx')"
      unfolding evalparseUnary_Ok [of F lx e' lx'] by auto
    from 5(1) [OF True u'] obtain x where u: "parseUnary F (lex_next lx) = (Ok x, lx')" by blast
    with True have "parseUnary F lx = (Ok (unary (lex_token lx) x), lx')"
      unfolding parseUnary_Ok [of F lx "unary (lex_token lx) x" lx'] by auto
    then show ?thesis by blast
  next
    case False
    with 5(3) have "evalparsePrimary F lx = (Ok e', lx')"
      unfolding evalparseUnary_Ok [of F lx e' lx'] by simp
    from 5(2) [OF False this] obtain e where p: "parsePrimary F lx = (Ok e, lx')" by blast
    with False have "parseUnary F lx = (Ok e, lx')"
      unfolding parseUnary_Ok [of F lx e lx'] by simp
    then show ?thesis by blast
  qed
next
  case (6 F lx)
  show ?case
  proof (cases "lex_token lx = scanner_Int \<or> lex_token lx = scanner_Float")
    case True
    with 6(2) have "parsePrimary F lx = (Ok e', lx')"
      unfolding evalparsePrimary_Ok [of F lx e' lx'] parsePrimary_Ok [of F lx e' lx'] by simp
    then show ?thesis by blast
  next
    case False
    with 6(2) obtain x' lx1 where p: "lex_token lx = Rune CHR ''(''"
      and x': "evalparseExpr F (lex_next lx) = (Ok x', lx1)"
      and c: "lex_token lx1 = Rune CHR '')''" and l: "lx' = lex_next lx1"
      unfolding evalparsePrimary_Ok [of F lx e' lx'] by auto
    from 6(1) [OF False p x'] obtain e where "parseExpr F (lex_next lx) = (Ok e, lx1)" by blast
    with False p c l have "parsePrimary F lx = (Ok e, lx')"
      unfolding parsePrimary_Ok [of F lx e lx'] by auto
    then show ?thesis by blast
  qed
qed

section \<open>A closing parenthesis after the input\<close>

lemma lex_append:
  "lx \<noteq> [] \<Longrightarrow> lex_token (lx @ sfx) = lex_token lx"
  "lx \<noteq> [] \<Longrightarrow> lex_text (lx @ sfx) = lex_text lx"
  "lx \<noteq> [] \<Longrightarrow> lex_next (lx @ sfx) = lex_next lx @ sfx"
  by (cases lx; simp add: lex_token_def lex_text_def lex_next_def)+

lemma lex_token_closing:
  "lex_token (lx @ [closing]) = (if lx = [] then Rune CHR '')'' else lex_token lx)"
  by (cases lx) (simp_all add: lex_token_def closing_def)

lemma priority_closing: "priority (lex_token (lx @ [closing])) = priority (lex_token lx)"
  by (cases lx) (simp_all add: lex_token_def closing_def priority_def)

lemma parseBinary_Nil: "parseBinary F [] prio0 \<noteq> (Ok e, lx')"
  by (simp add: parseBinary_Ok [of F "[]"] parseUnary_Ok [of F "[]"] parsePrimary_Ok [of F "[]"]
      lex_token_def)

lemma parse_closing:
  "parseExpr F lx = (Ok e, lx') \<Longrightarrow> parseExpr F (lx @ [closing]) = (Ok e, lx' @ [closing])"
  "parseBinary F lx prio0 = (Ok e, lx')
     \<Longrightarrow> parseBinary F (lx @ [closing]) prio0 = (Ok e, lx' @ [closing])"
  "parseBinary_for F lx prio0 prio left = (Ok e, lx')
     \<Longrightarrow> parseBinary_for F (lx @ [closing]) prio0 prio left = (Ok e, lx' @ [closing])"
  "parseBinary_while F lx prio left = (Ok e, lx')
     \<Longrightarrow> parseBinary_while F (lx @ [closing]) prio left = (Ok e, lx' @ [closing])"
  "parseUnary F lx = (Ok e, lx') \<Longrightarrow> parseUnary F (lx @ [closing]) = (Ok e, lx' @ [closing])"
  "parsePrimary F lx = (Ok e, lx')
     \<Longrightarrow> parsePrimary F (lx @ [closing]) = (Ok e, lx' @ [closing])"
proof (induct F lx and F lx prio0 and F lx prio0 prio left and F lx prio left and F lx and F lx
    arbitrary: e lx' and e lx' and e lx' and e lx' and e lx' and e lx' rule: parse_induct)
  case (1 F lx)
  then show ?case by (simp add: parseExpr.simps)
next
  case (2 F lx prio0)
  from 2(3) obtain left lx1 where u: "parseUnary F lx = (Ok left, lx1)"
    and f: "parseBinary_for F lx1 prio0 (priority (lex_token lx1)) left = (Ok e, lx')"
    unfolding parseBinary_Ok [of F lx prio0 e lx'] by blast
  from 2(1) [OF u] 2(2) [OF u [symmetric] refl f] show ?case
    unfolding parseBinary_Ok [of F "lx @ [closing]" prio0 e "lx' @ [closing]"]
    by (auto simp add: priority_closing)
next
  case (3 F lx prio0 prio left)
  show ?case
  proof (cases "prio0 \<le> prio")
    case True
    with 3(3) obtain left' lx1 where w: "parseBinary_while F lx prio left = (Ok left', lx1)"
      and f: "parseBinary_for F lx1 prio0 (prio - 1) left' = (Ok e, lx')"
      unfolding parseBinary_for_Ok [of F lx prio0 prio left e lx'] by auto
    from True 3(1) [OF True w] 3(2) [OF True w [symmetric] refl f] show ?thesis
      unfolding parseBinary_for_Ok [of F "lx @ [closing]" prio0 prio left e "lx' @ [closing]"]
      by auto
  next
    case False
    with 3(3) show ?thesis
      unfolding parseBinary_for_Ok [of F lx prio0 prio left e lx']
        parseBinary_for_Ok [of F "lx @ [closing]" prio0 prio left e "lx' @ [closing]"]
      by simp
  qed
next
  case (4 F lx prio left)
  show ?case
  proof (cases "priority (lex_token lx) = prio")
    case True
    with 4(3) obtain right lx1
      where b: "parseBinary F (lex_next lx) (prio + 1) = (Ok right, lx1)"
      and w: "parseBinary_while F lx1 prio (binary (lex_token lx) left right) = (Ok e, lx')"
      unfolding parseBinary_while_Ok [of F lx prio left e lx'] by auto
    from b parseBinary_Nil [of F "prio + 1" right lx1] have ne: "lx \<noteq> []"
      by (auto simp add: lex_next_def)
    from True ne 4(1) [OF True b] 4(2) [OF True b [symmetric] refl w] show ?thesis
      unfolding parseBinary_while_Ok [of F "lx @ [closing]" prio left e "lx' @ [closing]"]
      by (auto simp add: lex_append)
  next
    case False
    with 4(3) show ?thesis
      unfolding parseBinary_while_Ok [of F lx prio left e lx']
        parseBinary_while_Ok [of F "lx @ [closing]" prio left e "lx' @ [closing]"]
      by (simp add: priority_closing)
  qed
next
  case (5 F lx)
  show ?case
  proof (cases "lex_token lx = Rune CHR ''+'' \<or> lex_token lx = Rune CHR ''-''")
    case True
    then have ne: "lx \<noteq> []" by (auto simp add: lex_token_def)
    from True 5(3) obtain x where u: "parseUnary F (lex_next lx) = (Ok x, lx')"
      and e: "e = unary (lex_token lx) x"
      unfolding parseUnary_Ok [of F lx e lx'] by auto
    from True ne e 5(1) [OF True u] show ?thesis
      unfolding parseUnary_Ok [of F "lx @ [closing]" e "lx' @ [closing]"]
      by (auto simp add: lex_append)
  next
    case False
    with 5(3) have p: "parsePrimary F lx = (Ok e, lx')"
      unfolding parseUnary_Ok [of F lx e lx'] by simp
    from False have "\<not> (lex_token (lx @ [closing]) = Rune CHR ''+''
        \<or> lex_token (lx @ [closing]) = Rune CHR ''-'')"
      by (simp add: lex_token_closing)
    with 5(2) [OF False p] show ?thesis
      unfolding parseUnary_Ok [of F "lx @ [closing]" e "lx' @ [closing]"] by simp
  qed
next
  case (6 F lx)
  show ?case
  proof (cases "lex_token lx = scanner_Int \<or> lex_token lx = scanner_Float")
    case True
    then have ne: "lx \<noteq> []" by (auto simp add: lex_token_def)
    from True ne 6(2) show ?thesis
      unfolding parsePrimary_Ok [of F lx e lx']
        parsePrimary_Ok [of F "lx @ [closing]" e "lx' @ [closing]"]
      by (auto simp add: lex_append)
  next
    case False
    with 6(2) obtain lx1 where p: "lex_token lx = Rune CHR ''(''"
      and x: "parseExpr F (lex_next lx) = (Ok e, lx1)"
      and c: "lex_token lx1 = Rune CHR '')''" and l: "lx' = lex_next lx1"
      unfolding parsePrimary_Ok [of F lx e lx'] by auto
    from p have ne: "lx \<noteq> []" by (auto simp add: lex_token_def)
    from c have ne1: "lx1 \<noteq> []" by (auto simp add: lex_token_def)
    from False p c l ne ne1 6(1) [OF False p x] show ?thesis
      unfolding parsePrimary_Ok [of F "lx @ [closing]" e "lx' @ [closing]"]
      by (auto simp add: lex_append)
  qed
qed

lemma Parse_parenthesised:
  assumes "scanned r" and "Parse F r = Ok e"
  shows "Parse F ((Rune CHR ''('', ''('') # r @ [closing]) = Ok e"
proof -
  let ?lx = "(Rune CHR ''('', ''('') # r @ [closing]"
  from assms have "parseExpr F r = (Ok e, [])" by (rule Parse_Ok_scanned)
  from parse_closing(1) [OF this] have x: "parseExpr F (r @ [closing]) = (Ok e, [closing])"
    by simp
  have "parsePrimary F ?lx = (Ok e, [])"
    unfolding parsePrimary_Ok [of F ?lx e "[]"] using x
    by (simp add: lex_token_def lex_next_def closing_def)
  then have "parseUnary F ?lx = (Ok e, [])"
    unfolding parseUnary_Ok [of F ?lx e "[]"] by (simp add: lex_token_def)
  then have "parseBinary F ?lx 1 = (Ok e, [])"
    unfolding parseBinary_Ok [of F ?lx 1 e "[]"]
    by (simp add: parseBinary_for_Ok [of F "[]" 1 0 e e "[]"] lex_token_def priority_def)
  then show ?thesis
    by (simp add: Parse_def parseExpr.simps lex_token_def)
qed

section \<open>Precedence and associativity on the examples\<close>

text \<open>
  Claim C4. Parsing \<^verbatim>\<open>2*1+2\<close> gives the tree with \<^verbatim>\<open>+\<close> at the root, the subtree of
  \<^verbatim>\<open>2*1\<close> on the left and the literal 2 on the right; parsing \<^verbatim>\<open>2+1*2\<close> gives
  \<^verbatim>\<open>+\<close> at the root, the literal 2 on the left and the subtree of \<^verbatim>\<open>1*2\<close> on the right;
  both trees evaluate to 4, without error.
\<close>

theorem C4_precedence:
  "Parse_string exact ''2*1+2'' =
     Some (Ok (binary (Rune CHR ''+'') (binary (Rune CHR ''*'') (num 2) (num 1)) (num 2)))
   \<and> Parse_string exact ''2+1*2'' =
     Some (Ok (binary (Rune CHR ''+'') (num 2) (binary (Rune CHR ''*'') (num 1) (num 2))))
   \<and> Eval exact (binary (Rune CHR ''+'') (binary (Rune CHR ''*'') (num 2) (num 1)) (num 2))
     = (4, None)
   \<and> Eval exact (binary (Rune CHR ''+'') (num 2) (binary (Rune CHR ''*'') (num 1) (num 2)))
     = (4, None)"
  by code_simp

text \<open>
  Claim C5. Parsing \<^verbatim>\<open>1+2+3+4\<close> gives the left-nested tree \<^verbatim>\<open>((1+2)+3)+4\<close>, and
  the tree evaluates to 10, without error.
\<close>

theorem C5_left_associative:
  "Parse_string exact ''1+2+3+4'' =
     Some (Ok (binary (Rune CHR ''+'')
                 (binary (Rune CHR ''+'') (binary (Rune CHR ''+'') (num 1) (num 2)) (num 3))
                 (num 4)))
   \<and> Eval exact
        (binary (Rune CHR ''+'')
           (binary (Rune CHR ''+'') (binary (Rune CHR ''+'') (num 1) (num 2)) (num 3))
           (num 4))
     = (10, None)"
  by code_simp

section \<open>Malformed input\<close>

text \<open>
  Claim C8. On \<^verbatim>\<open>(1+2\<close> (the parenthesis is not closed), on \<^verbatim>\<open>1+\<close> (the operand is
  missing) and on the empty input \<^verbatim>\<open>Parse\<close> returns an error and no expression: it does
  not panic and returns no number, whatever the floating-point operations do. In the messages
  the three failures are "got end of file, want ')'", "unexpected end of file" under two
  frames, and "unexpected end of file" under one.
\<close>

theorem C8_malformed_inputs_fail:
  "(\<exists>e. Parse_string F ''(1+2'' = Some (Err e))
   \<and> (\<exists>e. Parse_string F ''1+'' = Some (Err e))
   \<and> (\<exists>e. Parse_string F '''' = Some (Err e))
   \<and> Parse_string exact ''(1+2''
       = Some (Err (CouldNotParse EndOfFile (InUnary EndOfFile (WantRParen EndOfFile))))
   \<and> Parse_string exact ''1+''
       = Some (Err (CouldNotParse EndOfFile
                     (InUnary EndOfFile (InUnary EndOfFile (Unexpected EndOfFile)))))
   \<and> Parse_string exact ''''
       = Some (Err (CouldNotParse EndOfFile (InUnary EndOfFile (Unexpected EndOfFile))))"
  by (simp add: scan_defs Parse_def lex_defs exact_def ParseFloat_decimal_def parse_simps
      split: option.split)

text \<open>
  Claim C6. When \<^verbatim>\<open>Parse\<close> succeeds on an input with \<open>n\<close> numeric literals and \<open>m\<close>
  operators (signs and binary operators together), \<^verbatim>\<open>Len\<close> of the tree it returns is
  \<open>n + m\<close>: every literal is one \<^verbatim>\<open>num\<close>, every operator one \<^verbatim>\<open>unary\<close> or
  \<^verbatim>\<open>binary\<close> node, and parentheses add nothing.
\<close>

theorem C6_Len_is_literals_plus_operators:
  assumes "scanned r" and "Parse F r = Ok e"
  shows "Len e = int (literals r) + int (operators r)"
proof -
  from assms have "parseExpr F r = (Ok e, [])" by (rule Parse_Ok_scanned)
  from parse_Len(1) [OF this] show ?thesis by (simp add: symbols_defs)
qed

theorem C6_Len_is_literals_plus_operators_witness:
  "scanned [(scanner_Int, ''2''), (Rune CHR ''*'', ''*''), (Rune CHR ''('', ''(''),
      (Rune CHR ''-'', ''-''), (scanner_Float, ''1.5''), (Rune CHR ''+'', ''+''),
      (scanner_Int, ''2''), (Rune CHR '')'', '')'')]
   \<and> Parse exact [(scanner_Int, ''2''), (Rune CHR ''*'', ''*''), (Rune CHR ''('', ''(''),
      (Rune CHR ''-'', ''-''), (scanner_Float, ''1.5''), (Rune CHR ''+'', ''+''),
      (scanner_Int, ''2''), (Rune CHR '')'', '')'')]
     = Ok (binary (Rune CHR ''*'') (num 2)
            (binary (Rune CHR ''+'') (unary (Rune CHR ''-'') (num (3 / 2))) (num 2)))
   \<and> Len (binary (Rune CHR ''*'') (num (2 :: rat))
            (binary (Rune CHR ''+'') (unary (Rune CHR ''-'') (num (3 / 2))) (num 2))) = 3 + 3"
proof -
  let ?r = "[(scanner_Int, ''2''), (Rune CHR ''*'', ''*''), (Rune CHR ''('', ''(''),
      (Rune CHR ''-'', ''-''), (scanner_Float, ''1.5''), (Rune CHR ''+'', ''+''),
      (scanner_Int, ''2''), (Rune CHR '')'', '')'')]"
  let ?e = "binary (Rune CHR ''*'') (num (2 :: rat))
            (binary (Rune CHR ''+'') (unary (Rune CHR ''-'') (num (3 / 2))) (num 2))"
  have s: "scanned ?r" by code_simp
  have p: "Parse exact ?r = Ok ?e" by code_simp
  from C6_Len_is_literals_plus_operators [OF s p] have "Len ?e = 3 + 3"
    by (simp add: literals_def operators_def is_literal_def is_operator_def)
  with s p show ?thesis by blast
qed

section \<open>The two modes compared\<close>

lemma Parse_EvalParse:
  assumes "Parse F r = Ok t"
  shows "EvalParse F r = Ok (num (eager_value F t))"
proof -
  from assms obtain lx where p: "parseExpr F r = (Ok t, lx)" and e: "lex_token lx = scanner_EOF"
    unfolding Parse_Ok by blast
  from fused_simulates(1) [OF p] e show ?thesis
    unfolding EvalParse_Ok by blast
qed

lemma EvalParse_Parse:
  assumes "EvalParse F r = Ok e"
  shows "\<exists>t. Parse F r = Ok t \<and> e = num (eager_value F t)"
proof -
  from assms obtain lx where p: "evalparseExpr F r = (Ok e, lx)"
    and eof: "lex_token lx = scanner_EOF"
    unfolding EvalParse_Ok by blast
  from fused_success(1) [OF p] obtain t where t: "parseExpr F r = (Ok t, lx)" by blast
  with eof have "Parse F r = Ok t" unfolding Parse_Ok by blast
  moreover from fused_simulates(1) [OF t] p have "e = num (eager_value F t)" by simp
  ultimately show ?thesis by blast
qed

text \<open>
  Where \<^verbatim>\<open>Eval\<close> of the tree returns no error, the fused parser computes the same number:
  it applies the same operations to the same operands in the same order.
\<close>

lemma modes_agree_when_Eval_succeeds:
  assumes "Parse F r = Ok t" and "snd (Eval F t) = None"
  shows "EvalParse F r = Ok (num (fst (Eval F t)))"
  using Parse_EvalParse [OF assms(1)] eager_value_Eval [OF assms(2)] by simp

text \<open>
  Claim C1. On every input that both modes parse, the number that \<^verbatim>\<open>Eval\<close> returns for
  the tree of \<^verbatim>\<open>Parse\<close> is the number in the literal that \<^verbatim>\<open>EvalParse\<close> returns. The
  code breaks this where the evaluation fails: on \<^verbatim>\<open>1+1/0\<close> both modes parse,
  \<^verbatim>\<open>Eval\<close> returns 0 with the error "division by zero" (under the frame of operand y),
  and \<^verbatim>\<open>EvalParse\<close>, which drops the error of every \<^verbatim>\<open>Eval\<close> it calls, returns the
  literal 1 with no error.
\<close>

theorem C1_modes_disagree_on_division_by_zero:
  "Parse_string exact ''1+1/0''
     = Some (Ok (binary (Rune CHR ''+'') (num 1) (binary (Rune CHR ''/'') (num 1) (num 0))))
   \<and> EvalParse_string exact ''1+1/0'' = Some (Ok (num 1))
   \<and> Eval exact (binary (Rune CHR ''+'') (num 1) (binary (Rune CHR ''/'') (num 1) (num 0)))
     = (0, Some (OperandY (binary (Rune CHR ''/'') (num 1) (num 0)) DivisionByZero))"
  by code_simp

text \<open>
  Whenever \<^verbatim>\<open>EvalParse\<close> succeeds, \<^verbatim>\<open>Parse\<close> succeeds on the same input and the
  expression that \<^verbatim>\<open>EvalParse\<close> returns is a single literal of \<^verbatim>\<open>Len\<close> 1; its number is
  the one \<^verbatim>\<open>Eval\<close> returns for the tree of \<^verbatim>\<open>Parse\<close> if that evaluation returns no
  error.
\<close>

lemma EvalParse_result_is_a_literal:
  assumes "EvalParse F r = Ok e"
  shows "\<exists>t v. Parse F r = Ok t \<and> e = num v \<and> Len e = 1
           \<and> (snd (Eval F t) = None \<longrightarrow> v = fst (Eval F t))"
proof -
  from EvalParse_Parse [OF assms] obtain t where t: "Parse F r = Ok t"
    and e: "e = num (eager_value F t)" by blast
  have "snd (Eval F t) = None \<longrightarrow> eager_value F t = fst (Eval F t)"
    by (simp add: eager_value_Eval)
  with t e show ?thesis by simp
qed

text \<open>
  Claim C7. Whenever \<^verbatim>\<open>EvalParse\<close> succeeds, what it returns is a single literal: its
  \<^verbatim>\<open>Len\<close> is 1 and its number is the result of the whole input expression. The code
  returns a literal of \<^verbatim>\<open>Len\<close> 1 every time, but not always the result: on
  \<^verbatim>\<open>4-2/(1-1)\<close> it succeeds with the literal 4, while the expression has no result, since
  evaluating its tree fails with "division by zero".
\<close>

theorem C7_literal_is_not_the_result_on_division_by_zero:
  "EvalParse_string exact ''4-2/(1-1)'' = Some (Ok (num 4))
   \<and> Len (num (4 :: rat)) = 1
   \<and> Parse_string exact ''4-2/(1-1)''
     = Some (Ok (binary (Rune CHR ''-'') (num 4)
          (binary (Rune CHR ''/'') (num 2) (binary (Rune CHR ''-'') (num 1) (num 1)))))
   \<and> Eval exact (binary (Rune CHR ''-'') (num 4)
          (binary (Rune CHR ''/'') (num 2) (binary (Rune CHR ''-'') (num 1) (num 1))))
     = (0, Some (OperandY
          (binary (Rune CHR ''/'') (num 2) (binary (Rune CHR ''-'') (num 1) (num 1)))
          DivisionByZero))"
  by code_simp

section \<open>Division by zero\<close>

lemma Eval_division:
  assumes "Eval F x = (xv, None)" and "Eval F y = (yv, None)"
  shows "Eval F (binary (Rune CHR ''/'') x y)
    = (if f_eq_zero F yv then (f_zero F, Some DivisionByZero) else (f_quo F xv yv, None))"
  using assms by simp

text \<open>
  Claim C2. A division whose divisor evaluates to zero makes \<^verbatim>\<open>Eval\<close> fail with
  "division by zero", and a division by anything else succeeds (\<open>Eval_division\<close>); but
  \<^verbatim>\<open>EvalParse\<close> drops the error: on \<^verbatim>\<open>1/0\<close> it returns the literal 0 and a nil error,
  where \<^verbatim>\<open>Parse\<close> followed by \<^verbatim>\<open>Eval\<close> reports the division by zero.
\<close>

theorem C2_EvalParse_drops_division_by_zero:
  "EvalParse_string exact ''1/0'' = Some (Ok (num 0))
   \<and> Parse_string exact ''1/0'' = Some (Ok (binary (Rune CHR ''/'') (num 1) (num 0)))
   \<and> Eval exact (binary (Rune CHR ''/'') (num 1) (num 0)) = (0, Some DivisionByZero)"
  by code_simp

section \<open>Parentheses\<close>

lemma scan_from_closing:
  "scan_from st (s @ '')'') = map_option (\<lambda>ts. ts @ [closing]) (scan_from st s)"
  by (induction s arbitrary: st)
    (auto simp add: closing_def plain_def isDecimal_def isWhitespace_def option.map_comp
      comp_def split: scan_state.splits)

lemma scan_from_scanned: "scan_from st s = Some r \<Longrightarrow> scanned r"
proof (induction s arbitrary: st r)
  case Nil
  then show ?case by (cases st) (auto simp add: scanned_def)
next
  case (Cons c s)
  have flush: "scanned (scan_flush st)" for st
    by (cases st) (auto simp add: scanned_def)
  from Cons.prems Cons.IH flush show ?case
    by (auto simp add: scanned_def split: if_splits scan_state.splits)
qed

lemma Parse_string_parenthesised:
  assumes "Parse_string F s = Some (Ok e)"
  shows "Parse_string F (''('' @ s @ '')'') = Some (Ok e)"
proof -
  from assms obtain r where r: "Scan_tokens s = Some r" and p: "Parse F r = Ok e"
    by (auto simp add: Parse_string_def)
  from r have "scanned r" unfolding Scan_tokens_def by (rule scan_from_scanned)
  from Parse_parenthesised [OF this p]
  have "Parse F ((Rune CHR ''('', ''('') # r @ [closing]) = Ok e" .
  moreover from r have "Scan_tokens (''('' @ s @ '')'')
    = Some ((Rune CHR ''('', ''('') # r @ [closing])"
    unfolding Scan_tokens_def
    by (simp add: scan_from_closing [of _ s, simplified] plain_def isDecimal_def
        isWhitespace_def)
  ultimately show ?thesis by (simp add: Parse_string_def)
qed

text \<open>
  Claim C10. Parentheses around a whole expression change nothing: when \<^verbatim>\<open>Parse\<close> succeeds
  on an input, it returns the very same tree on that input between \<^verbatim>\<open>(\<close> and \<^verbatim>\<open>)\<close>,
  so that \<^verbatim>\<open>Len\<close> and \<^verbatim>\<open>Eval\<close> of the two results are equal. (On plain decimal text
  the lemma \<open>Parse_string_parenthesised\<close> says the same of the character strings.)
\<close>

theorem C10_parentheses_add_no_node:
  assumes "scanned r" and "Parse F r = Ok e"
  shows "Parse F ((Rune CHR ''('', ''('') # r @ [(Rune CHR '')'', '')'')]) = Ok e"
  using Parse_parenthesised [OF assms] by (simp add: closing_def)

theorem C10_parentheses_add_no_node_witness:
  "scanned [(scanner_Int, ''1''), (Rune CHR ''+'', ''+''), (scanner_Int, ''2''),
      (Rune CHR ''*'', ''*''), (scanner_Int, ''3'')]
   \<and> Parse exact [(scanner_Int, ''1''), (Rune CHR ''+'', ''+''), (scanner_Int, ''2''),
      (Rune CHR ''*'', ''*''), (scanner_Int, ''3'')]
     = Ok (binary (Rune CHR ''+'') (num 1) (binary (Rune CHR ''*'') (num 2) (num 3)))
   \<and> Parse exact [(Rune CHR ''('', ''(''), (scanner_Int, ''1''), (Rune CHR ''+'', ''+''),
      (scanner_Int, ''2''), (Rune CHR ''*'', ''*''), (scanner_Int, ''3''),
      (Rune CHR '')'', '')'')]
     = Ok (binary (Rune CHR ''+'') (num 1) (binary (Rune CHR ''*'') (num 2) (num 3)))"
proof -
  let ?r = "[(scanner_Int, ''1''), (Rune CHR ''+'', ''+''), (scanner_Int, ''2''),
      (Rune CHR ''*'', ''*''), (scanner_Int, ''3'')]"
  let ?e = "binary (Rune CHR ''+'') (num (1 :: rat)) (binary (Rune CHR ''*'') (num 2) (num 3))"
  have s: "scanned ?r" by code_simp
  have p: "Parse exact ?r = Ok ?e" by code_simp
  from C10_parentheses_add_no_node [OF s p] s p show ?thesis by simp
qed

section \<open>Parsing what String prints\<close>

lemma lex_Cons [simp]:
  "lex_token ((t, s) # r) = t"
  "lex_text ((t, s) # r) = s"
  "lex_next ((t, s) # r) = r"
  by (simp_all add: lex_token_def lex_text_def lex_next_def)

lemma kind_priority:
  "kind a = kind b \<Longrightarrow> priority a = priority b"
  by (auto simp add: kind_def priority_def split: if_splits)

lemma kind_Rune: "kind a = kind b \<Longrightarrow> a = Rune c \<longleftrightarrow> b = Rune c"
  by (auto simp add: kind_def split: if_splits)

lemma paren_free_suffix: "suffix a b \<Longrightarrow> paren_free b \<Longrightarrow> paren_free a"
  by (auto simp add: paren_free_def suffix_def)

lemma paren_free_token: "paren_free lx \<Longrightarrow> lex_token lx \<noteq> Rune CHR ''(''"
  by (cases lx) (auto simp add: paren_free_def lex_token_def)

lemma reparse:
  "parseExpr F lx = (Ok e, lx') \<Longrightarrow> paren_free lx \<Longrightarrow> rereads F g e \<Longrightarrow>
     (\<forall>r2. kind (lex_token (render F e @ r2)) = kind (lex_token lx))
     \<and> (\<forall>r2. kind (lex_token r2) = kind (lex_token lx')
           \<longrightarrow> parseExpr F (render F e @ r2) = (Ok (map_Expr g e), r2))"
  "parseBinary F lx prio0 = (Ok e, lx') \<Longrightarrow> paren_free lx \<Longrightarrow> rereads F g e \<Longrightarrow>
     (\<forall>r2. kind (lex_token (render F e @ r2)) = kind (lex_token lx))
     \<and> (\<forall>r2. kind (lex_token r2) = kind (lex_token lx')
           \<longrightarrow> parseBinary F (render F e @ r2) prio0 = (Ok (map_Expr g e), r2))"
  "parseBinary_for F lx prio0 prio left = (Ok e, lx') \<Longrightarrow> paren_free lx \<Longrightarrow> rereads F g e \<Longrightarrow>
     rereads F g left
     \<and> (\<exists>d. render F e = render F left @ d
          \<and> (\<forall>r2. kind (lex_token r2) = kind (lex_token lx')
                \<longrightarrow> kind (lex_token (d @ r2)) = kind (lex_token lx)
                  \<and> parseBinary_for F (d @ r2) prio0 prio (map_Expr g left)
                      = (Ok (map_Expr g e), r2)))"
  "parseBinary_while F lx prio left = (Ok e, lx') \<Longrightarrow> paren_free lx \<Longrightarrow> rereads F g e \<Longrightarrow>
     rereads F g left
     \<and> (\<exists>d. render F e = render F left @ d
          \<and> (\<forall>r2. kind (lex_token r2) = kind (lex_token lx')
                \<longrightarrow> kind (lex_token (d @ r2)) = kind (lex_token lx)
                  \<and> parseBinary_while F (d @ r2) prio (map_Expr g left)
                      = (Ok (map_Expr g e), r2)))"
  "parseUnary F lx = (Ok e, lx') \<Longrightarrow> paren_free lx \<Longrightarrow> rereads F g e \<Longrightarrow>
     (\<forall>r2. kind (lex_token (render F e @ r2)) = kind (lex_token lx))
     \<and> (\<forall>r2. kind (lex_token r2) = kind (lex_token lx')
           \<longrightarrow> parseUnary F (render F e @ r2) = (Ok (map_Expr g e), r2))"
  "parsePrimary F lx = (Ok e, lx') \<Longrightarrow> paren_free lx \<Longrightarrow> rereads F g e \<Longrightarrow>
     (\<forall>r2. kind (lex_token (render F e @ r2)) = kind (lex_token lx))
     \<and> (\<forall>r2. kind (lex_token r2) = kind (lex_token lx')
           \<longrightarrow> parsePrimary F (render F e @ r2) = (Ok (map_Expr g e), r2))"
proof (induct F lx and F lx prio0 and F lx prio0 prio left and F lx prio left and F lx and F lx
    arbitrary: e lx' and e lx' and e lx' and e lx' and e lx' and e lx' rule: parse_induct)
  case (1 F lx)
  then show ?case by (simp add: parseExpr.simps)
next
  case (2 F lx prio0)
  from 2(3) obtain left lx1 where u: "parseUnary F lx = (Ok left, lx1)"
    and f: "parseBinary_for F lx1 prio0 (priority (lex_token lx1)) left = (Ok e, lx')"
    unfolding parseBinary_Ok [of F lx prio0 e lx'] by blast
  from parse_suffix(5) [of F lx] u have "suffix lx1 lx" by simp
  from this 2(4) have pf1: "paren_free lx1" by (rule paren_free_suffix)
  from 2(2) [OF u [symmetric] refl f pf1 2(5)] obtain d where rl: "rereads F g left"
    and d: "render F e = render F left @ d"
    and loop: "\<And>r2. kind (lex_token r2) = kind (lex_token lx')
       \<Longrightarrow> kind (lex_token (d @ r2)) = kind (lex_token lx1)
         \<and> parseBinary_for F (d @ r2) prio0 (priority (lex_token lx1)) (map_Expr g left)
             = (Ok (map_Expr g e), r2)"
    by blast
  from 2(1) [OF u 2(4) rl]
  have k: "\<And>r2. kind (lex_token (render F left @ r2)) = kind (lex_token lx)"
    and un: "\<And>r2. kind (lex_token r2) = kind (lex_token lx1)
       \<Longrightarrow> parseUnary F (render F left @ r2) = (Ok (map_Expr g left), r2)"
    by blast+
  have "kind (lex_token (render F e @ r2)) = kind (lex_token lx)" for r2
    using k [of "d @ r2"] d by simp
  moreover have "parseBinary F (render F e @ r2) prio0 = (Ok (map_Expr g e), r2)"
    if r2: "kind (lex_token r2) = kind (lex_token lx')" for r2
  proof -
    from loop [OF r2] have k1: "kind (lex_token (d @ r2)) = kind (lex_token lx1)"
      and l: "parseBinary_for F (d @ r2) prio0 (priority (lex_token lx1)) (map_Expr g left)
        = (Ok (map_Expr g e), r2)" by blast+
    from un [OF k1] have "parseUnary F (render F e @ r2) = (Ok (map_Expr g left), d @ r2)"
      using d by simp
    moreover from k1 have "priority (lex_token (d @ r2)) = priority (lex_token lx1)"
      by (rule kind_priority)
    ultimately show ?thesis
      using l unfolding parseBinary_Ok [of F "render F e @ r2" prio0 "map_Expr g e" r2]
      by auto
  qed
  ultimately show ?case by blast
next
  case (3 F lx prio0 prio left)
  show ?case
  proof (cases "prio0 \<le> prio")
    case True
    with 3(3) obtain left' lx1 where w: "parseBinary_while F lx prio left = (Ok left', lx1)"
      and f: "parseBinary_for F lx1 prio0 (prio - 1) left' = (Ok e, lx')"
      unfolding parseBinary_for_Ok [of F lx prio0 prio left e lx'] by auto
    from parse_suffix(4) [of F lx prio left] w have "suffix lx1 lx" by simp
    from this 3(4) have pf1: "paren_free lx1" by (rule paren_free_suffix)
    from 3(2) [OF True w [symmetric] refl f pf1 3(5)] obtain d2 where rl': "rereads F g left'"
      and d2: "render F e = render F left' @ d2"
      and loop2: "\<And>r2. kind (lex_token r2) = kind (lex_token lx')
         \<Longrightarrow> kind (lex_token (d2 @ r2)) = kind (lex_token lx1)
           \<and> parseBinary_for F (d2 @ r2) prio0 (prio - 1) (map_Expr g left')
               = (Ok (map_Expr g e), r2)"
      by blast
    from 3(1) [OF True w 3(4) rl'] obtain d1 where rl: "rereads F g left"
      and d1: "render F left' = render F left @ d1"
      and loop1: "\<And>r2. kind (lex_token r2) = kind (lex_token lx1)
         \<Longrightarrow> kind (lex_token (d1 @ r2)) = kind (lex_token lx)
           \<and> parseBinary_while F (d1 @ r2) prio (map_Expr g left)
               = (Ok (map_Expr g left'), r2)"
      by blast
    have "kind (lex_token ((d1 @ d2) @ r2)) = kind (lex_token lx)
        \<and> parseBinary_for F ((d1 @ d2) @ r2) prio0 prio (map_Expr g left)
            = (Ok (map_Expr g e), r2)"
      if r2: "kind (lex_token r2) = kind (lex_token lx')" for r2
    proof -
      from loop2 [OF r2] have k2: "kind (lex_token (d2 @ r2)) = kind (lex_token lx1)"
        and l2: "parseBinary_for F (d2 @ r2) prio0 (prio - 1) (map_Expr g left')
          = (Ok (map_Expr g e), r2)" by blast+
      from loop1 [OF k2] have k1: "kind (lex_token (d1 @ d2 @ r2)) = kind (lex_token lx)"
        and l1: "parseBinary_while F (d1 @ d2 @ r2) prio (map_Expr g left)
          = (Ok (map_Expr g left'), d2 @ r2)" by blast+
      from True l1 l2 have "parseBinary_for F (d1 @ d2 @ r2) prio0 prio (map_Expr g left)
          = (Ok (map_Expr g e), r2)"
        unfolding parseBinary_for_Ok
          [of F "d1 @ d2 @ r2" prio0 prio "map_Expr g left" "map_Expr g e" r2]
        by auto
      with k1 show ?thesis by simp
    qed
    moreover from d1 d2 have "render F e = render F left @ d1 @ d2" by simp
    ultimately show ?thesis using rl by blast
  next
    case False
    with 3(3) have e: "e = left" "lx' = lx"
      unfolding parseBinary_for_Ok [of F lx prio0 prio left e lx'] by simp_all
    have "parseBinary_for F r2 prio0 prio (map_Expr g left) = (Ok (map_Expr g left), r2)" for r2
      using False
      unfolding parseBinary_for_Ok [of F r2 prio0 prio "map_Expr g left" "map_Expr g left" r2]
      by simp
    with e 3(5) show ?thesis by (intro conjI exI [of _ "[]"]) simp_all
  qed
next
  case (4 F lx prio left)
  show ?case
  proof (cases "priority (lex_token lx) = prio")
    case True
    with 4(3) obtain right lx1
      where b: "parseBinary F (lex_next lx) (prio + 1) = (Ok right, lx1)"
      and w: "parseBinary_while F lx1 prio (binary (lex_token lx) left right) = (Ok e, lx')"
      unfolding parseBinary_while_Ok [of F lx prio left e lx'] by auto
    let ?op = "lex_token lx"
    from lex_next_suffix 4(4) have pfn: "paren_free (lex_next lx)" by (rule paren_free_suffix)
    from parse_suffix(2) [of F "lex_next lx" "prio + 1"] b have "suffix lx1 (lex_next lx)"
      by simp
    from this pfn have pf1: "paren_free lx1" by (rule paren_free_suffix)
    from 4(2) [OF True b [symmetric] refl w pf1 4(5)] obtain d2
      where rl': "rereads F g (binary ?op left right)"
      and d2: "render F e = render F (binary ?op left right) @ d2"
      and loop2: "\<And>r2. kind (lex_token r2) = kind (lex_token lx')
         \<Longrightarrow> kind (lex_token (d2 @ r2)) = kind (lex_token lx1)
           \<and> parseBinary_while F (d2 @ r2) prio (map_Expr g (binary ?op left right))
               = (Ok (map_Expr g e), r2)"
      by blast
    from rl' have rl: "rereads F g left" and rr: "rereads F g right" by simp_all
    from 4(1) [OF True b pfn rr]
    have bin: "\<And>r2. kind (lex_token r2) = kind (lex_token lx1)
         \<Longrightarrow> parseBinary F (render F right @ r2) (prio + 1) = (Ok (map_Expr g right), r2)"
      by blast
    let ?d = "(?op, string_of_rune ?op) # render F right @ d2"
    have "kind (lex_token (?d @ r2)) = kind (lex_token lx)
        \<and> parseBinary_while F (?d @ r2) prio (map_Expr g left) = (Ok (map_Expr g e), r2)"
      if r2: "kind (lex_token r2) = kind (lex_token lx')" for r2
    proof -
      from loop2 [OF r2] have k2: "kind (lex_token (d2 @ r2)) = kind (lex_token lx1)"
        and l2: "parseBinary_while F (d2 @ r2) prio (map_Expr g (binary ?op left right))
          = (Ok (map_Expr g e), r2)" by blast+
      from bin [OF k2]
      have "parseBinary F (render F right @ d2 @ r2) (prio + 1)
          = (Ok (map_Expr g right), d2 @ r2)" .
      with True l2 have "parseBinary_while F (?d @ r2) prio (map_Expr g left)
          = (Ok (map_Expr g e), r2)"
        unfolding parseBinary_while_Ok [of F "?d @ r2" prio "map_Expr g left" "map_Expr g e" r2]
        by auto
      then show ?thesis by simp
    qed
    moreover from d2 have "render F e = render F left @ ?d" by simp
    ultimately show ?thesis using rl by blast
  next
    case False
    with 4(3) have e: "e = left" "lx' = lx"
      unfolding parseBinary_while_Ok [of F lx prio left e lx'] by simp_all
    have "parseBinary_while F r2 prio (map_Expr g left) = (Ok (map_Expr g left), r2)"
      if "kind (lex_token r2) = kind (lex_token lx)" for r2
      using False kind_priority [OF that]
      unfolding parseBinary_while_Ok [of F r2 prio "map_Expr g left" "map_Expr g left" r2]
      by simp
    with e 4(5) show ?thesis by (intro conjI exI [of _ "[]"]) simp_all
  qed
next
  case (5 F lx)
  show ?case
  proof (cases "lex_token lx = Rune CHR ''+'' \<or> lex_token lx = Rune CHR ''-''")
    case True
    with 5(3) obtain x where u: "parseUnary F (lex_next lx) = (Ok x, lx')"
      and e: "e = unary (lex_token lx) x"
      unfolding parseUnary_Ok [of F lx e lx'] by auto
    from lex_next_suffix 5(4) have pfn: "paren_free (lex_next lx)" by (rule paren_free_suffix)
    from 5(5) e have rx: "rereads F g x" by simp
    from 5(1) [OF True u pfn rx]
    have un: "\<And>r2. kind (lex_token r2) = kind (lex_token lx')
         \<Longrightarrow> parseUnary F (render F x @ r2) = (Ok (map_Expr g x), r2)"
      by blast
    have "parseUnary F (render F e @ r2) = (Ok (map_Expr g e), r2)"
      if "kind (lex_token r2) = kind (lex_token lx')" for r2
      using un [OF that] True e
      unfolding parseUnary_Ok [of F "render F e @ r2" "map_Expr g e" r2]
      by auto
    with e show ?thesis by simp
  next
    case False
    with 5(3) have p: "parsePrimary F lx = (Ok e, lx')"
      unfolding parseUnary_Ok [of F lx e lx'] by simp
    from 5(2) [OF False p 5(4) 5(5)]
    have k: "\<And>r2. kind (lex_token (render F e @ r2)) = kind (lex_token lx)"
      and pr: "\<And>r2. kind (lex_token r2) = kind (lex_token lx')
         \<Longrightarrow> parsePrimary F (render F e @ r2) = (Ok (map_Expr g e), r2)"
      by blast+
    have "parseUnary F (render F e @ r2) = (Ok (map_Expr g e), r2)"
      if "kind (lex_token r2) = kind (lex_token lx')" for r2
    proof -
      from False kind_Rune [OF k [of r2]]
      have "\<not> (lex_token (render F e @ r2) = Rune CHR ''+''
          \<or> lex_token (render F e @ r2) = Rune CHR ''-'')" by simp
      with pr [OF that] show ?thesis
        unfolding parseUnary_Ok [of F "render F e @ r2" "map_Expr g e" r2] by simp
    qed
    with k show ?thesis by blast
  qed
next
  case (6 F lx)
  from 6(3) have np: "lex_token lx \<noteq> Rune CHR ''(''" by (rule paren_free_token)
  with 6(2) obtain f where n: "lex_token lx = scanner_Int \<or> lex_token lx = scanner_Float"
    and f: "ParseFloat F (lex_text lx) = Some f" and e: "e = num f" and l: "lx' = lex_next lx"
    unfolding parsePrimary_Ok [of F lx e lx'] by (auto split: if_splits)
  from 6(4) e have g: "ParseFloat F (Sprintf_2f F f) = Some (g f)" by simp
  have "parsePrimary F (render F e @ r2) = (Ok (map_Expr g e), r2)" for r2
    using e g unfolding parsePrimary_Ok [of F "render F e @ r2" "map_Expr g e" r2] by simp
  moreover from n e have "kind (lex_token (render F e @ r2)) = kind (lex_token lx)" for r2
    by (auto simp add: kind_def)
  ultimately show ?case by blast
qed

lemma parse_operators_ok:
  "parseExpr F lx = (Ok e, lx') \<Longrightarrow> operators_ok e"
  "1 \<le> prio0 \<Longrightarrow> parseBinary F lx prio0 = (Ok e, lx') \<Longrightarrow> operators_ok e"
  "1 \<le> prio0 \<Longrightarrow> operators_ok left \<Longrightarrow> parseBinary_for F lx prio0 prio left = (Ok e, lx')
     \<Longrightarrow> operators_ok e"
  "1 \<le> prio \<Longrightarrow> operators_ok left \<Longrightarrow> parseBinary_while F lx prio left = (Ok e, lx')
     \<Longrightarrow> operators_ok e"
  "parseUnary F lx = (Ok e, lx') \<Longrightarrow> operators_ok e"
  "parsePrimary F lx = (Ok e, lx') \<Longrightarrow> operators_ok e"
proof (induct F lx and F lx prio0 and F lx prio0 prio left and F lx prio left and F lx and F lx
    arbitrary: e lx' and e lx' and e lx' and e lx' and e lx' and e lx' rule: parse_induct)
  case (1 F lx)
  then show ?case by (simp add: parseExpr.simps)
next
  case (2 F lx prio0)
  from 2(4) obtain left lx1 where u: "parseUnary F lx = (Ok left, lx1)"
    and f: "parseBinary_for F lx1 prio0 (priority (lex_token lx1)) left = (Ok e, lx')"
    unfolding parseBinary_Ok [of F lx prio0 e lx'] by blast
  from 2(2) [OF u [symmetric] refl 2(3) 2(1) [OF u] f] show ?case .
next
  case (3 F lx prio0 prio left)
  show ?case
  proof (cases "prio0 \<le> prio")
    case True
    with 3(5) obtain left' lx1 where w: "parseBinary_while F lx prio left = (Ok left', lx1)"
      and f: "parseBinary_for F lx1 prio0 (prio - 1) left' = (Ok e, lx')"
      unfolding parseBinary_for_Ok [of F lx prio0 prio left e lx'] by auto
    from True 3(3) have "1 \<le> prio" by simp
    from 3(2) [OF True w [symmetric] refl 3(3) 3(1) [OF True this 3(4) w] f] show ?thesis .
  next
    case False
    with 3(4) 3(5) show ?thesis
      unfolding parseBinary_for_Ok [of F lx prio0 prio left e lx'] by simp
  qed
next
  case (4 F lx prio left)
  show ?case
  proof (cases "priority (lex_token lx) = prio")
    case True
    with 4(5) obtain right lx1
      where b: "parseBinary F (lex_next lx) (prio + 1) = (Ok right, lx1)"
      and w: "parseBinary_while F lx1 prio (binary (lex_token lx) left right) = (Ok e, lx')"
      unfolding parseBinary_while_Ok [of F lx prio left e lx'] by auto
    from 4(3) have "1 \<le> prio + 1" by simp
    from 4(1) [OF True this b] True 4(3) 4(4)
    have "operators_ok (binary (lex_token lx) left right)" by simp
    from 4(2) [OF True b [symmetric] refl 4(3) this w] show ?thesis .
  next
    case False
    with 4(4) 4(5) show ?thesis
      unfolding parseBinary_while_Ok [of F lx prio left e lx'] by simp
  qed
next
  case (5 F lx)
  show ?case
  proof (cases "lex_token lx = Rune CHR ''+'' \<or> lex_token lx = Rune CHR ''-''")
    case True
    with 5(3) obtain x where u: "parseUnary F (lex_next lx) = (Ok x, lx')"
      and e: "e = unary (lex_token lx) x"
      unfolding parseUnary_Ok [of F lx e lx'] by auto
    from 5(1) [OF True u] True e show ?thesis by simp
  next
    case False
    with 5(3) have "parsePrimary F lx = (Ok e, lx')"
      unfolding parseUnary_Ok [of F lx e lx'] by simp
    from 5(2) [OF False this] show ?thesis .
  qed
next
  case (6 F lx)
  show ?case
  proof (cases "lex_token lx = scanner_Int \<or> lex_token lx = scanner_Float")
    case True
    with 6(2) show ?thesis unfolding parsePrimary_Ok [of F lx e lx'] by auto
  next
    case False
    with 6(2) obtain lx1 where p: "lex_token lx = Rune CHR ''(''"
      and x: "parseExpr F (lex_next lx) = (Ok e, lx1)"
      unfolding parsePrimary_Ok [of F lx e lx'] by auto
    from 6(1) [OF False p x] show ?thesis .
  qed
qed

lemma append_single: "(@) [x] = (#) x"
  by (rule ext) simp

lemma append_nothing: "(@) [] = (\<lambda>x. x)"
  by (rule ext) simp

lemma isDecimal_plain: "isDecimal c \<Longrightarrow> plain c"
  by (simp add: isDecimal_def plain_def)

lemma scan_digits_InInt:
  "list_all isDecimal ds \<Longrightarrow> scan_from (InInt t) (ds @ rest) = scan_from (InInt (t @ ds)) rest"
  by (induction ds arbitrary: t) (simp_all add: isDecimal_plain)

lemma scan_digits_InFloat:
  "list_all isDecimal ds
     \<Longrightarrow> scan_from (InFloat t) (ds @ rest) = scan_from (InFloat (t @ ds)) rest"
  by (induction ds arbitrary: t) (simp_all add: isDecimal_plain)

lemma decimal_textD:
  assumes "decimal_text s"
  obtains d ds fp where "s = d # ds @ CHR ''.'' # fp" and "isDecimal d"
    and "list_all isDecimal ds" and "list_all isDecimal fp"
proof -
  let ?ip = "takeWhile isDecimal s" and ?r = "dropWhile isDecimal s"
  from assms have ip: "?ip \<noteq> []" and r: "?r \<noteq> []" and h: "hd ?r = CHR ''.''"
    and fp: "list_all isDecimal (tl ?r)"
    by (simp_all add: decimal_text_def Let_def)
  from ip obtain d ds where c: "?ip = d # ds" by (cases ?ip) auto
  have all: "list_all isDecimal ?ip" by (simp add: list_all_iff) (meson set_takeWhileD)
  from r h have "?r = CHR ''.'' # tl ?r" by (cases ?r) auto
  with c have "s = d # ds @ CHR ''.'' # tl ?r"
    by (metis append_Cons takeWhile_dropWhile_id)
  moreover from all c have "isDecimal d" "list_all isDecimal ds" by simp_all
  ultimately show ?thesis using fp that by blast
qed

lemma scan_decimal_text:
  assumes "decimal_text s" and "rest = [] \<or> hd rest = CHR '' ''"
  shows "scan_from Idle (s @ rest)
    = map_option (Cons (scanner_Float, s)) (scan_from Idle rest)"
proof -
  from assms(1) obtain d ds fp where s: "s = d # ds @ CHR ''.'' # fp" and d: "isDecimal d"
    and ds: "list_all isDecimal ds" and fp: "list_all isDecimal fp" by (rule decimal_textD)
  have dot: "plain CHR ''.''" "\<not> isDecimal CHR ''.''" by (simp_all add: plain_def isDecimal_def)
  have "scan_from Idle (s @ rest) = scan_from (InInt [d]) (ds @ CHR ''.'' # fp @ rest)"
    using d s by (simp add: isDecimal_plain)
  also have "\<dots> = scan_from (InInt (d # ds)) (CHR ''.'' # fp @ rest)"
    using scan_digits_InInt [OF ds] by simp
  also have "\<dots> = scan_from (InFloat (d # ds @ ''.'')) (fp @ rest)"
    using dot by simp
  also have "\<dots> = scan_from (InFloat s) rest"
    using scan_digits_InFloat [OF fp] s by simp
  also have "\<dots> = map_option (Cons (scanner_Float, s)) (scan_from Idle rest)"
  proof (cases rest)
    case Nil
    then show ?thesis by simp
  next
    case (Cons c cs)
    with assms(2) have "c = CHR '' ''" by simp
    with Cons show ?thesis
      by (simp add: plain_def isDecimal_def isWhitespace_def option.map_comp comp_def
          append_single)
  qed
  finally show ?thesis .
qed

lemma scan_operator:
  assumes "1 \<le> priority op"
  shows "scan_from Idle (string_of_rune op @ rest)
    = map_option (Cons (op, string_of_rune op)) (scan_from Idle rest)"
proof -
  from assms obtain c where op: "op = Rune c"
    and c: "c = CHR ''+'' \<or> c = CHR ''-'' \<or> c = CHR ''*'' \<or> c = CHR ''/''"
    by (auto simp add: priority_def split: if_splits)
  from c show ?thesis unfolding op
    by (auto simp add: string_of_rune_def plain_def isDecimal_def isWhitespace_def
        append_single)
qed

lemma scan_blank: "scan_from Idle (CHR '' '' # rest) = scan_from Idle rest"
  by (simp add: plain_def isDecimal_def isWhitespace_def append_nothing option.map_ident)

lemma scan_String:
  "operators_ok e \<Longrightarrow> rereads F g e \<Longrightarrow> rest = [] \<or> hd rest = CHR '' ''
     \<Longrightarrow> scan_from Idle (String F e @ rest)
       = map_option (append (render F e)) (scan_from Idle rest)"
proof (induction e arbitrary: rest)
  case (num f)
  then show ?case by (simp add: scan_decimal_text)
next
  case (unary op x)
  from unary.prems(1) have "1 \<le> priority op" by (auto simp add: priority_def)
  from scan_operator [OF this] unary show ?case
    by (simp add: option.map_comp comp_def)
next
  case (binary op x y)
  from binary.prems(1) have op: "1 \<le> priority op" by simp
  let ?r1 = "CHR '' '' # string_of_rune op @ CHR '' '' # String F y @ rest"
  from binary.prems have "scan_from Idle (String F x @ ?r1)
      = map_option (append (render F x)) (scan_from Idle ?r1)"
    by (intro binary.IH(1)) simp_all
  moreover have "scan_from Idle ?r1
      = map_option (Cons (op, string_of_rune op)) (scan_from Idle (String F y @ rest))"
  proof -
    have "scan_from Idle ?r1
        = scan_from Idle (string_of_rune op @ CHR '' '' # String F y @ rest)"
      by (rule scan_blank)
    also have "\<dots> = map_option (Cons (op, string_of_rune op))
        (scan_from Idle (CHR '' '' # String F y @ rest))"
      by (rule scan_operator [OF op])
    finally show ?thesis by (simp only: scan_blank)
  qed
  moreover from binary.prems have "scan_from Idle (String F y @ rest)
      = map_option (append (render F y)) (scan_from Idle rest)"
    by (intro binary.IH(2)) simp_all
  ultimately show ?case by (simp add: option.map_comp comp_def)
qed

lemma map_Expr_unchanged: "(\<And>v. v \<in> set_Expr e \<Longrightarrow> g v = v) \<Longrightarrow> map_Expr g e = e"
  by (induction e) auto

lemma Parse_String:
  assumes "scanned r" and "paren_free r" and "Parse F r = Ok t" and "rereads F g t"
  shows "Parse_string F (String F t) = Some (Ok (map_Expr g t))"
proof -
  from assms(1,3) have p: "parseExpr F r = (Ok t, [])" by (rule Parse_Ok_scanned)
  from reparse(1) [OF p assms(2,4)]
  have "parseExpr F (render F t @ []) = (Ok (map_Expr g t), [])" by blast
  then have "Parse F (render F t) = Ok (map_Expr g t)"
    unfolding Parse_Ok by (simp add: lex_token_def)
  moreover from parse_operators_ok(1) [OF p] assms(4)
  have "scan_from Idle (String F t @ []) = map_option (append (render F t)) (scan_from Idle [])"
    by (intro scan_String) simp_all
  then have "Scan_tokens (String F t) = Some (render F t)"
    by (simp add: Scan_tokens_def)
  ultimately show ?thesis by (simp add: Parse_string_def)
qed

text \<open>
  Claim C3, as stated: for every tree that \<^verbatim>\<open>Parse\<close> returns, parsing the text of its
  \<^verbatim>\<open>String\<close> gives an expression with the same evaluation. \<^verbatim>\<open>String\<close> writes no
  parentheses: the tree of \<^verbatim>\<open>(1+2)*3\<close>, which evaluates to 9, is printed as
  \<^verbatim>\<open>1.00 + 2.00 * 3.00\<close>, which parses as \<^verbatim>\<open>1+(2*3)\<close> and evaluates to 7.
\<close>

theorem C3_counterexample:
  "Parse_string exact ''(1+2)*3''
     = Some (Ok (binary (Rune CHR ''*'') (binary (Rune CHR ''+'') (num 1) (num 2)) (num 3)))
   \<and> Eval exact (binary (Rune CHR ''*'') (binary (Rune CHR ''+'') (num 1) (num 2)) (num 3))
     = (9, None)
   \<and> String exact (binary (Rune CHR ''*'') (binary (Rune CHR ''+'') (num 1) (num 2)) (num 3))
     = ''1.00 + 2.00 * 3.00''
   \<and> Parse_string exact ''1.00 + 2.00 * 3.00''
     = Some (Ok (binary (Rune CHR ''+'') (num 1) (binary (Rune CHR ''*'') (num 2) (num 3))))
   \<and> Eval exact (binary (Rune CHR ''+'') (num 1) (binary (Rune CHR ''*'') (num 2) (num 3)))
     = (7, None)"
  by code_simp

text \<open>
  Claim C3, amended: for every tree \<open>t\<close> that \<^verbatim>\<open>Parse\<close> returns on an input without
  parentheses, where the two-decimal rendering of each literal \<open>v\<close> is read back by
  \<^verbatim>\<open>ParseFloat\<close> as \<open>g v\<close>: parsing the text of \<^verbatim>\<open>String\<close> succeeds and returns
  \<open>t\<close> with every literal \<open>v\<close> replaced by \<open>g v\<close>, the operators and their nesting
  unchanged. When every literal is read back unchanged, the result is \<open>t\<close> itself, and
  so is its evaluation.
\<close>

theorem C3_String_reparses_without_parentheses:
  assumes "scanned r" and "paren_free r" and "Parse F r = Ok t" and "rereads F g t"
  shows "Parse_string F (String F t) = Some (Ok (map_Expr g t))
    \<and> ((\<forall>v \<in> set_Expr t. g v = v) \<longrightarrow> Parse_string F (String F t) = Some (Ok t))"
proof -
  from assms have p: "Parse_string F (String F t) = Some (Ok (map_Expr g t))"
    by (rule Parse_String)
  have "map_Expr g t = t" if "\<forall>v \<in> set_Expr t. g v = v"
    using that by (intro map_Expr_unchanged) simp
  with p show ?thesis by simp
qed

theorem C3_String_reparses_without_parentheses_witness:
  "scanned [(scanner_Float, ''1.5''), (Rune CHR ''+'', ''+''), (scanner_Int, ''2''),
      (Rune CHR ''*'', ''*''), (Rune CHR ''-'', ''-''), (scanner_Int, ''3'')]
   \<and> paren_free [(scanner_Float, ''1.5''), (Rune CHR ''+'', ''+''), (scanner_Int, ''2''),
      (Rune CHR ''*'', ''*''), (Rune CHR ''-'', ''-''), (scanner_Int, ''3'')]
   \<and> Parse exact [(scanner_Float, ''1.5''), (Rune CHR ''+'', ''+''), (scanner_Int, ''2''),
      (Rune CHR ''*'', ''*''), (Rune CHR ''-'', ''-''), (scanner_Int, ''3'')]
     = Ok (binary (Rune CHR ''+'') (num (3 / 2))
          (binary (Rune CHR ''*'') (num 2) (unary (Rune CHR ''-'') (num 3))))
   \<and> rereads exact (\<lambda>v. v) (binary (Rune CHR ''+'') (num (3 / 2))
          (binary (Rune CHR ''*'') (num 2) (unary (Rune CHR ''-'') (num 3))))
   \<and> String exact (binary (Rune CHR ''+'') (num (3 / 2))
          (binary (Rune CHR ''*'') (num 2) (unary (Rune CHR ''-'') (num 3))))
     = ''1.50 + 2.00 * -3.00''
   \<and> Parse_string exact ''1.50 + 2.00 * -3.00''
     = Some (Ok (binary (Rune CHR ''+'') (num (3 / 2))
          (binary (Rune CHR ''*'') (num 2) (unary (Rune CHR ''-'') (num 3)))))"
proof -
  let ?r = "[(scanner_Float, ''1.5''), (Rune CHR ''+'', ''+''), (scanner_Int, ''2''),
      (Rune CHR ''*'', ''*''), (Rune CHR ''-'', ''-''), (scanner_Int, ''3'')]"
  let ?t = "binary (Rune CHR ''+'') (num (3 / 2 :: rat))
      (binary (Rune CHR ''*'') (num 2) (unary (Rune CHR ''-'') (num 3)))"
  have s: "scanned ?r" by code_simp
  have f: "paren_free ?r" by code_simp
  have p: "Parse exact ?r = Ok ?t" by code_simp
  have g: "rereads exact (\<lambda>v. v) ?t" by code_simp
  have x: "String exact ?t = ''1.50 + 2.00 * -3.00''" by code_simp
  from C3_String_reparses_without_parentheses [OF s f p g]
  have "Parse_string exact (String exact ?t) = Some (Ok ?t)" by simp
  with x have "Parse_string exact ''1.50 + 2.00 * -3.00'' = Some (Ok ?t)" by simp
  with s f p g x show ?thesis by blast
qed

end
